theory Spec2Isabelle
  imports Complex_Main "HOL-Library.Sublist" "HOL-Library.Multiset"
begin

section \<open>Data model of ratings.c\<close>

text \<open>
  A C string is modelled by the list of bytes that follow the pointer; the string ends at
  the first NUL byte of the list, or at the end of the list (where the terminator sits).
  \<open>c_str\<close> is the text such a byte list denotes.
\<close>

definition c_str :: "string \<Rightarrow> string" where
  "c_str s = takeWhile (\<lambda>c. c \<noteq> CHR 0x00) s"

definition MAX_DESC_LEN :: nat where "MAX_DESC_LEN = 500"
definition MAX_MOVIES :: nat where "MAX_MOVIES = 30"
definition MAX_RESULTS :: nat where "MAX_RESULTS = 30"
definition MAX_KEYWORD_LEN :: nat where "MAX_KEYWORD_LEN = 64"

text \<open>
  The C type \<open>float\<close>: a finite value (every finite float is a rational number; the two
  zeros compare equal and are one value here), an infinity, or a NaN. The program only
  stores, compares and prints ratings, so the comparisons are all that is modelled.
\<close>

datatype c_float = Finite rat | PosInf | NegInf | NaN

fun float_lt :: "c_float \<Rightarrow> c_float \<Rightarrow> bool" where
  "float_lt NaN _ = False"
| "float_lt _ NaN = False"
| "float_lt (Finite a) (Finite b) = (a < b)"
| "float_lt (Finite a) PosInf = True"
| "float_lt (Finite a) NegInf = False"
| "float_lt PosInf _ = False"
| "float_lt NegInf NegInf = False"
| "float_lt NegInf _ = True"

definition float_gt :: "c_float \<Rightarrow> c_float \<Rightarrow> bool" where
  "float_gt a b = float_lt b a"

definition float_eq :: "c_float \<Rightarrow> c_float \<Rightarrow> bool" where
  "float_eq a b = (a \<noteq> NaN \<and> b \<noteq> NaN \<and> a = b)"

definition float_ge :: "c_float \<Rightarrow> c_float \<Rightarrow> bool" where
  "float_ge a b = (float_gt a b \<or> float_eq a b)"

record Movie =
  title :: string
  director :: string
  release_date :: string
  popularity_rating :: c_float
  description :: string

record ResultItem =
  idx :: nat
  rating :: c_float

section \<open>The keyword filter\<close>

text \<open>
  \<open>tolower\<close> of the C library in the "C" locale (the program never calls
  \<open>setlocale\<close>): the letters A to Z move to a to z, every other byte stays.
\<close>

definition tolower :: "char \<Rightarrow> char" where
  "tolower c = (let n = (of_char c :: nat) in
     if 65 \<le> n \<and> n \<le> 90 then char_of (n + 32) else c)"

text \<open>
  \<open>to_lower_copy\<close>: the loop runs while \<open>i + 1 < dst_sz\<close> and \<open>src[i]\<close> is not NUL;
  the result is the content of \<open>dst\<close> before the terminator written after the loop.
\<close>

fun to_lower_loop :: "nat \<Rightarrow> nat \<Rightarrow> string \<Rightarrow> string" where
  "to_lower_loop i dst_sz [] = []"
| "to_lower_loop i dst_sz (c # src) =
     (if i + 1 < dst_sz \<and> c \<noteq> CHR 0x00
      then tolower c # to_lower_loop (i + 1) dst_sz src
      else [])"

definition to_lower_copy :: "nat \<Rightarrow> string \<Rightarrow> string" where
  "to_lower_copy dst_sz src = to_lower_loop 0 dst_sz src"

text \<open>
  \<open>strstr\<close> of the C library: the offset of the first occurrence of the needle in the
  haystack, \<open>None\<close> for the NULL pointer. An empty needle is found at offset 0.
\<close>

fun strstr :: "string \<Rightarrow> string \<Rightarrow> nat option" where
  "strstr [] needle = (if needle = [] then Some 0 else None)"
| "strstr (h # hs) needle =
     (if prefix needle (h # hs) then Some 0 else map_option Suc (strstr hs needle))"

text \<open>
  \<open>keyword[0] == '\0'\<close> on a byte list.
\<close>

fun first_is_nul :: "string \<Rightarrow> bool" where
  "first_is_nul [] = True"
| "first_is_nul (c # _) = (c = CHR 0x00)"

text \<open>
  \<open>contains_keyword_ci\<close>: a pointer argument is \<open>None\<close> for NULL. The result is the C
  \<open>int\<close> the function returns.
\<close>

definition contains_keyword_ci :: "string option \<Rightarrow> string option \<Rightarrow> int" where
  "contains_keyword_ci text keyword =
     (case text of None \<Rightarrow> 0 | Some t \<Rightarrow>
      (case keyword of None \<Rightarrow> 0 | Some k \<Rightarrow>
        if first_is_nul k then 0
        else (let text_l = to_lower_copy MAX_DESC_LEN t;
                  key_l = to_lower_copy MAX_KEYWORD_LEN k
              in if strstr text_l key_l \<noteq> None then 1 else 0)))"

section \<open>Ranking\<close>

definition cmp_result_desc :: "ResultItem \<Rightarrow> ResultItem \<Rightarrow> int" where
  "cmp_result_desc ra rb =
     (if float_lt (rating ra) (rating rb) then 1
      else if float_gt (rating ra) (rating rb) then - 1
      else 0)"

text \<open>
  \<open>qsort\<close> belongs to the C library, not to the program. The functions below take it as
  the parameter \<open>srt\<close>; \<open>qsort_contract\<close> is what the C standard promises of it: when
  the comparison function orders the elements consistently, the array is permuted into
  ascending order of the comparison function, and elements that compare equal end up in
  an unspecified order.
\<close>

type_synonym qsort_fun =
  "(ResultItem \<Rightarrow> ResultItem \<Rightarrow> int) \<Rightarrow> ResultItem list \<Rightarrow> ResultItem list"

definition valid_compar :: "(ResultItem \<Rightarrow> ResultItem \<Rightarrow> int) \<Rightarrow> ResultItem set \<Rightarrow> bool" where
  "valid_compar cmp A =
     ((\<forall>a\<in>A. \<forall>b\<in>A. (cmp a b < 0 \<longleftrightarrow> 0 < cmp b a) \<and> (cmp a b = 0 \<longleftrightarrow> cmp b a = 0)) \<and>
      (\<forall>a\<in>A. \<forall>b\<in>A. \<forall>c\<in>A. cmp a b \<le> 0 \<and> cmp b c \<le> 0 \<longrightarrow> cmp a c \<le> 0))"

definition qsort_contract :: "qsort_fun \<Rightarrow> bool" where
  "qsort_contract srt =
     (\<forall>cmp xs. valid_compar cmp (set xs) \<longrightarrow>
        mset (srt cmp xs) = mset xs \<and> sorted_wrt (\<lambda>a b. cmp a b \<le> 0) (srt cmp xs))"

text \<open>
  One function that meets the contract, for running the search on concrete catalogs: an
  insertion sort driven by the comparison function.
\<close>

fun qsort_insert :: "(ResultItem \<Rightarrow> ResultItem \<Rightarrow> int) \<Rightarrow> ResultItem \<Rightarrow> ResultItem list \<Rightarrow> ResultItem list" where
  "qsort_insert cmp x [] = [x]"
| "qsort_insert cmp x (y # ys) =
     (if cmp x y \<le> 0 then x # y # ys else y # qsort_insert cmp x ys)"

definition qsort_ins :: qsort_fun where
  "qsort_ins cmp xs = foldr (qsort_insert cmp) xs []"

section \<open>The search: scan, sort, report\<close>

text \<open>
  The catalog \<open>g_movies[0 .. g_movie_count - 1]\<close> is a list of records; the array
  \<open>results[0 .. res_count - 1]\<close> is a list whose length is \<open>res_count\<close>.
  \<open>scan_movies ms keyword i results\<close> is the scan loop of \<open>search_movies_and_print\<close>
  from index \<open>i\<close> on, \<open>ms\<close> being the records from that index on.
\<close>

fun scan_movies :: "Movie list \<Rightarrow> string \<Rightarrow> nat \<Rightarrow> ResultItem list \<Rightarrow> ResultItem list" where
  "scan_movies [] keyword i results = results"
| "scan_movies (m # ms) keyword i results =
     scan_movies ms keyword (i + 1)
       (if contains_keyword_ci (Some (description m)) (Some keyword) \<noteq> 0
        then (if length results < MAX_RESULTS
              then results @ [\<lparr>idx = i, rating = popularity_rating m\<rparr>]
              else results)
        else results)"

definition search_results :: "qsort_fun \<Rightarrow> Movie list \<Rightarrow> string \<Rightarrow> ResultItem list" where
  "search_results srt g_movies keyword =
     srt cmp_result_desc (scan_movies g_movies keyword 0 [])"

text \<open>
  Standard output is the sequence of \<open>printf\<close> calls made, each with its format string
  and its arguments; turning a call into characters is the C library's work.
\<close>

datatype printf_arg = ArgStr string | ArgInt int | ArgFloat c_float

datatype printf_call = Printf string "printf_arg list"

definition rule_eq :: string where
  "rule_eq = ''============================================================''"

definition rule_dash :: string where
  "rule_dash = ''------------------------------------------------------------''"

fun print_rows :: "Movie list \<Rightarrow> ResultItem list \<Rightarrow> nat \<Rightarrow> printf_call list" where
  "print_rows g_movies [] i = []"
| "print_rows g_movies (r # rs) i =
     (let m = g_movies ! idx r in
      Printf ''%2d) %-28s | %-18s | %s  (%.1f)\<newline>''
        [ArgInt (int i + 1), ArgStr (title m), ArgStr (director m),
         ArgStr (release_date m), ArgFloat (popularity_rating m)])
     # print_rows g_movies rs (i + 1)"

definition report_block :: "Movie list \<Rightarrow> string \<Rightarrow> ResultItem list \<Rightarrow> printf_call list" where
  "report_block g_movies keyword results =
     [Printf (''\<newline>'' @ rule_eq @ ''\<newline>'') [],
      Printf ''Keyword: \"%s\" | Matches: %d\<newline>'' [ArgStr keyword, ArgInt (int (length results))],
      Printf ''Sorted by popularity rating (descending)\<newline>'' [],
      Printf (rule_dash @ ''\<newline>'') []]
     @ (if length results = 0
        then [Printf ''(No matches found)\<newline>'' []]
        else print_rows g_movies results 0)
     @ [Printf (rule_eq @ ''\<newline>'') []]"

definition search_movies_and_print :: "qsort_fun \<Rightarrow> Movie list \<Rightarrow> string \<Rightarrow> printf_call list" where
  "search_movies_and_print srt g_movies keyword =
     report_block g_movies keyword (search_results srt g_movies keyword)"

section \<open>The hardcoded catalog\<close>

definition load_movies_hardcoded :: "Movie list" where
  "load_movies_hardcoded =
    [\<lparr>title = ''How to Train Your Dragon'', director = ''Chris Sanders'',
      release_date = ''2010-03-26'', popularity_rating = Finite (185 / 2),
      description = ''A young Viking befriends a dragon and changes his village forever.''\<rparr>,
     \<lparr>title = ''Dragonheart'', director = ''Rob Cohen'',
      release_date = ''1996-05-31'', popularity_rating = Finite 71,
      description = ''A knight teams up with a dragon to overthrow a tyrant king.''\<rparr>,
     \<lparr>title = ''Spirited Away'', director = ''Hayao Miyazaki'',
      release_date = ''2001-07-20'', popularity_rating = Finite 97,
      description = ''A girl enters a spirit world filled with magic, mystery, and courage.''\<rparr>,
     \<lparr>title = ''Interstellar'', director = ''Christopher Nolan'',
      release_date = ''2014-11-07'', popularity_rating = Finite 89,
      description = ''A space mission searches for a new home for humanity beyond Earth.''\<rparr>,
     \<lparr>title = ''The Dark Knight'', director = ''Christopher Nolan'',
      release_date = ''2008-07-18'', popularity_rating = Finite 94,
      description = ''A crime saga where Gotham faces chaos and a villain tests the hero.''\<rparr>,
     \<lparr>title = ''Inception'', director = ''Christopher Nolan'',
      release_date = ''2010-07-16'', popularity_rating = Finite 91,
      description = ''A thief enters dreams to plant an idea; reality becomes uncertain.''\<rparr>,
     \<lparr>title = ''The Lord of the Rings'', director = ''Peter Jackson'',
      release_date = ''2001-12-19'', popularity_rating = Finite 96,
      description = ''An epic war against darkness with magic, courage, and sacrifice.''\<rparr>,
     \<lparr>title = ''Love Actually'', director = ''Richard Curtis'',
      release_date = ''2003-11-14'', popularity_rating = Finite 78,
      description = ''Multiple stories of love unfold during the holiday season.''\<rparr>,
     \<lparr>title = ''War Horse'', director = ''Steven Spielberg'',
      release_date = ''2011-12-25'', popularity_rating = Finite 75,
      description = ''A boy and his horse are separated by war and struggle to reunite.''\<rparr>,
     \<lparr>title = ''The Girl with the Dragon Tattoo'', director = ''David Fincher'',
      release_date = ''2011-12-21'', popularity_rating = Finite 86,
      description = ''A journalist and hacker investigate a mystery with dark secrets.''\<rparr>]"

section \<open>The worker threads\<close>

text \<open>
  The threads run interleaved: a state of the program holds, for every worker thread, its
  arguments and the statement of \<open>search_worker\<close> it executes next, and the shared
  semaphore, mutex and standard output. A step executes one statement of one thread;
  a blocked call (\<open>sem_wait\<close> on a zero semaphore, \<open>pthread_mutex_lock\<close> on a locked
  mutex) is no step. The catalog is read-only while the threads run.
\<close>

record WorkerArgs =
  keyword :: string
  worker_id :: int

text \<open>
  The statements of \<open>search_worker\<close>, with \<open>search_movies_and_print\<close> inlined: the
  scan and the sort are one step that leaves the local array \<open>results\<close>; every
  \<open>printf\<close> of the report block is a step of its own (\<open>Print_Report results k\<close> is
  about to make the \<open>k\<close>-th call of the block).
\<close>

datatype location =
    Lock_Waiting
  | Print_Waiting
  | Unlock_Waiting
  | Sem_Wait
  | Lock_Acquired
  | Print_Acquired
  | Unlock_Acquired
  | Usleep
  | Scan_Sort
  | Lock_Report "ResultItem list"
  | Print_Report "ResultItem list" nat
  | Unlock_Report
  | Lock_Finished
  | Print_Finished
  | Unlock_Finished
  | Sem_Post
  | Done

record thread = WorkerArgs +
  pc :: location

record system =
  threads :: "thread list"
  g_db_sem :: nat
  g_print_mutex :: "nat option"
  stdout :: "printf_call list"

definition waiting_line :: "int \<Rightarrow> string \<Rightarrow> printf_call" where
  "waiting_line wid kw =
     Printf ''[Worker %d] Waiting for DB slot... (keyword: %s)\<newline>'' [ArgInt wid, ArgStr kw]"

definition acquired_line :: "int \<Rightarrow> printf_call" where
  "acquired_line wid =
     Printf ''[Worker %d] Acquired DB slot. Starting search...\<newline>'' [ArgInt wid]"

definition finished_line :: "int \<Rightarrow> printf_call" where
  "finished_line wid =
     Printf ''[Worker %d] Finished search. Releasing DB slot.\<newline>'' [ArgInt wid]"

text \<open>
  The library calls on the shared state. \<open>None\<close> means that the call blocks in this
  state. The mutex records the index of the thread that holds it. \<open>sem_wait\<close> returns
  only when it has taken a permit: the program installs no signal handler, so the call is
  never interrupted, and the program ignores its return value.
\<close>

definition pthread_mutex_lock :: "nat \<Rightarrow> system \<Rightarrow> system option" where
  "pthread_mutex_lock i s =
     (case g_print_mutex s of None \<Rightarrow> Some (s\<lparr>g_print_mutex := Some i\<rparr>) | Some _ \<Rightarrow> None)"

definition pthread_mutex_unlock :: "system \<Rightarrow> system" where
  "pthread_mutex_unlock s = s\<lparr>g_print_mutex := None\<rparr>"

definition sem_wait :: "system \<Rightarrow> system option" where
  "sem_wait s = (if 0 < g_db_sem s then Some (s\<lparr>g_db_sem := g_db_sem s - 1\<rparr>) else None)"

definition sem_post :: "system \<Rightarrow> system" where
  "sem_post s = s\<lparr>g_db_sem := g_db_sem s + 1\<rparr>"

definition printf :: "printf_call \<Rightarrow> system \<Rightarrow> system" where
  "printf c s = s\<lparr>stdout := stdout s @ [c]\<rparr>"

definition goto :: "nat \<Rightarrow> location \<Rightarrow> system \<Rightarrow> system" where
  "goto i l s = s\<lparr>threads := (threads s)[i := (threads s ! i)\<lparr>pc := l\<rparr>]\<rparr>"

text \<open>
  One step of thread \<open>i\<close> in \<open>search_worker\<close>.
\<close>

definition search_worker :: "qsort_fun \<Rightarrow> Movie list \<Rightarrow> nat \<Rightarrow> system \<Rightarrow> system option" where
  "search_worker srt g_movies i s =
     (let wa = threads s ! i in
      case pc wa of
        Lock_Waiting \<Rightarrow> map_option (goto i Print_Waiting) (pthread_mutex_lock i s)
      | Print_Waiting \<Rightarrow>
          Some (goto i Unlock_Waiting (printf (waiting_line (worker_id wa) (keyword wa)) s))
      | Unlock_Waiting \<Rightarrow> Some (goto i Sem_Wait (pthread_mutex_unlock s))
      | Sem_Wait \<Rightarrow> map_option (goto i Lock_Acquired) (sem_wait s)
      | Lock_Acquired \<Rightarrow> map_option (goto i Print_Acquired) (pthread_mutex_lock i s)
      | Print_Acquired \<Rightarrow> Some (goto i Unlock_Acquired (printf (acquired_line (worker_id wa)) s))
      | Unlock_Acquired \<Rightarrow> Some (goto i Usleep (pthread_mutex_unlock s))
      | Usleep \<Rightarrow> Some (goto i Scan_Sort s)
      | Scan_Sort \<Rightarrow> Some (goto i (Lock_Report (search_results srt g_movies (keyword wa))) s)
      | Lock_Report results \<Rightarrow>
          map_option (goto i (Print_Report results 0)) (pthread_mutex_lock i s)
      | Print_Report results k \<Rightarrow>
          (let block = report_block g_movies (keyword wa) results in
           Some (goto i (if k + 1 < length block then Print_Report results (k + 1)
                         else Unlock_Report)
                   (printf (block ! k) s)))
      | Unlock_Report \<Rightarrow> Some (goto i Lock_Finished (pthread_mutex_unlock s))
      | Lock_Finished \<Rightarrow> map_option (goto i Print_Finished) (pthread_mutex_lock i s)
      | Print_Finished \<Rightarrow> Some (goto i Unlock_Finished (printf (finished_line (worker_id wa)) s))
      | Unlock_Finished \<Rightarrow> Some (goto i Sem_Post (pthread_mutex_unlock s))
      | Sem_Post \<Rightarrow> Some (goto i Done (sem_post s))
      | Done \<Rightarrow> None)"

text \<open>
  A schedule is the list of the threads that are given the processor, in order; a thread
  that does not exist, is blocked or has returned leaves the state as it is.
\<close>

definition step :: "qsort_fun \<Rightarrow> Movie list \<Rightarrow> nat \<Rightarrow> system \<Rightarrow> system" where
  "step srt g_movies i s =
     (if i < length (threads s)
      then (case search_worker srt g_movies i s of None \<Rightarrow> s | Some s' \<Rightarrow> s')
      else s)"

fun run :: "qsort_fun \<Rightarrow> Movie list \<Rightarrow> nat list \<Rightarrow> system \<Rightarrow> system" where
  "run srt g_movies [] s = s"
| "run srt g_movies (i # schedule) s = run srt g_movies schedule (step srt g_movies i s)"

text \<open>
  A lock statement of thread \<open>i\<close> in closed form: the mutex is taken and the thread moves
  on to \<open>l\<close>, or the state stays as it is.
\<close>

definition lock_then :: "nat \<Rightarrow> location \<Rightarrow> system \<Rightarrow> system" where
  "lock_then i l s =
     (if g_print_mutex s = None then goto i l (s\<lparr>g_print_mutex := Some i\<rparr>) else s)"

text \<open>
  The state \<open>main\<close> sets up: the semaphore initialised to \<open>K\<close>, the mutex unlocked, one
  thread per keyword, numbered from 1, its keyword cut to \<open>MAX_KEYWORD_LEN - 1\<close>
  characters by \<open>strncpy\<close>. A thread that \<open>pthread_create\<close> has not started yet is a
  thread that has not been scheduled yet. \<open>main\<close> itself takes \<open>K = 5\<close> and eight
  keywords.
\<close>

definition worker_args :: "nat \<Rightarrow> string \<Rightarrow> thread" where
  "worker_args i kw =
     \<lparr>keyword = take (MAX_KEYWORD_LEN - 1) (c_str kw), worker_id = int i + 1, pc = Lock_Waiting\<rparr>"

definition start :: "nat \<Rightarrow> string list \<Rightarrow> system" where
  "start K keywords =
     \<lparr>threads = map (\<lambda>(i, kw). worker_args i kw) (enumerate 0 keywords),
      g_db_sem = K, g_print_mutex = None, stdout = []\<rparr>"

definition main_keywords :: "string list" where
  "main_keywords =
     [''dragon'', ''magic'', ''war'', ''love'', ''space'', ''crime'', ''dream'', ''mystery'']"

definition main_start :: system where
  "main_start = start 5 main_keywords"

text \<open>
  The states of a worker in which it holds a permit of the semaphore (from the return of
  \<open>sem_wait\<close> to the call of \<open>sem_post\<close>), in which it searches or reports (from the
  pacing delay to the end of the report block), and in which it holds the print mutex.
\<close>

fun holds_permit :: "location \<Rightarrow> bool" where
  "holds_permit Lock_Waiting = False"
| "holds_permit Print_Waiting = False"
| "holds_permit Unlock_Waiting = False"
| "holds_permit Sem_Wait = False"
| "holds_permit Done = False"
| "holds_permit _ = True"

fun searching_or_reporting :: "location \<Rightarrow> bool" where
  "searching_or_reporting Usleep = True"
| "searching_or_reporting Scan_Sort = True"
| "searching_or_reporting (Lock_Report _) = True"
| "searching_or_reporting (Print_Report _ _) = True"
| "searching_or_reporting Unlock_Report = True"
| "searching_or_reporting _ = False"

fun holds_mutex :: "location \<Rightarrow> bool" where
  "holds_mutex Print_Waiting = True"
| "holds_mutex Unlock_Waiting = True"
| "holds_mutex Print_Acquired = True"
| "holds_mutex Unlock_Acquired = True"
| "holds_mutex (Print_Report _ _) = True"
| "holds_mutex Unlock_Report = True"
| "holds_mutex Print_Finished = True"
| "holds_mutex Unlock_Finished = True"
| "holds_mutex _ = False"

text \<open>
  What one critical section of a worker writes: one of its three diagnostic lines, or its
  whole report block.
\<close>

definition is_chunk :: "qsort_fun \<Rightarrow> Movie list \<Rightarrow> thread list \<Rightarrow> printf_call list \<Rightarrow> bool" where
  "is_chunk srt g_movies ts c =
     (\<exists>wa\<in>set ts.
        c = [waiting_line (worker_id wa) (keyword wa)] \<or>
        c = [acquired_line (worker_id wa)] \<or>
        c = search_movies_and_print srt g_movies (keyword wa) \<or>
        c = [finished_line (worker_id wa)])"

text \<open>
  The part of its report block that a thread at location \<open>l\<close> has written so far, and
  the part of a report block that the holder of the mutex has written so far.
\<close>

fun written :: "Movie list \<Rightarrow> string \<Rightarrow> location \<Rightarrow> printf_call list" where
  "written g_movies kw (Print_Report results k) = take k (report_block g_movies kw results)"
| "written g_movies kw _ = []"

definition block_in_progress :: "Movie list \<Rightarrow> system \<Rightarrow> printf_call list" where
  "block_in_progress g_movies s =
     (case g_print_mutex s of
        None \<Rightarrow> []
      | Some i \<Rightarrow> written g_movies (keyword (threads s ! i)) (pc (threads s ! i)))"

text \<open>
  The number of threads whose next statement satisfies \<open>P\<close>.
\<close>

definition count_at :: "(location \<Rightarrow> bool) \<Rightarrow> system \<Rightarrow> nat" where
  "count_at P s = length (filter (\<lambda>t. P (pc t)) (threads s))"

text \<open>
  Invariants of the run. The mutex is held by exactly the thread that is inside one of
  its critical sections; the local array \<open>results\<close> of a thread that reports is the
  result of its search; the output is a sequence of whole chunks followed by the part of
  the block being written.
\<close>

text \<open>
  The arguments of the threads, which no step changes.
\<close>

definition idents :: "system \<Rightarrow> (int \<times> string) list" where
  "idents s = map (\<lambda>t. (worker_id t, keyword t)) (threads s)"

definition mutex_inv :: "system \<Rightarrow> bool" where
  "mutex_inv s =
     ((\<forall>j<length (threads s). holds_mutex (pc (threads s ! j)) \<longleftrightarrow> g_print_mutex s = Some j) \<and>
      (\<forall>i. g_print_mutex s = Some i \<longrightarrow> i < length (threads s)))"

fun loc_ok :: "qsort_fun \<Rightarrow> Movie list \<Rightarrow> string \<Rightarrow> location \<Rightarrow> bool" where
  "loc_ok srt g_movies kw (Lock_Report results) = (results = search_results srt g_movies kw)"
| "loc_ok srt g_movies kw (Print_Report results k) =
     (results = search_results srt g_movies kw \<and> k < length (report_block g_movies kw results))"
| "loc_ok srt g_movies kw _ = True"

definition results_inv :: "qsort_fun \<Rightarrow> Movie list \<Rightarrow> system \<Rightarrow> bool" where
  "results_inv srt g_movies s =
     (\<forall>j<length (threads s). loc_ok srt g_movies (keyword (threads s ! j)) (pc (threads s ! j)))"

definition out_inv :: "qsort_fun \<Rightarrow> Movie list \<Rightarrow> system \<Rightarrow> bool" where
  "out_inv srt g_movies s =
     (\<exists>chunks. stdout s = concat chunks @ block_in_progress g_movies s \<and>
        (\<forall>c\<in>set chunks. is_chunk srt g_movies (threads s) c))"

section \<open>Notions used to state the properties\<close>

text \<open>
  \<open>matching_from i ms keyword\<close>: one entry for every record of \<open>ms\<close> whose description
  the filter accepts, in catalog order, the first record of \<open>ms\<close> having position \<open>i\<close>.
\<close>

definition matching_from :: "nat \<Rightarrow> Movie list \<Rightarrow> string \<Rightarrow> ResultItem list" where
  "matching_from i ms kw =
     map (\<lambda>(j, m). \<lparr>idx = j, rating = popularity_rating m\<rparr>)
       (filter (\<lambda>(j, m). contains_keyword_ci (Some (description m)) (Some kw) \<noteq> 0)
          (enumerate i ms))"

text \<open>
  The ratings a report block prints: the floating-point arguments of its \<open>printf\<close> calls,
  in the order of the calls.
\<close>

fun float_args :: "printf_arg list \<Rightarrow> c_float list" where
  "float_args [] = []"
| "float_args (ArgFloat x # as) = x # float_args as"
| "float_args (_ # as) = float_args as"

fun printed_ratings :: "printf_call list \<Rightarrow> c_float list" where
  "printed_ratings [] = []"
| "printed_ratings (Printf fmt as # cs) = float_args as @ printed_ratings cs"

text \<open>
  Runs used to evaluate the model. \<open>blocking_schedule\<close> drives the state of \<open>main\<close>
  until five workers search and the sixth is blocked in \<open>sem_wait\<close>;
  \<open>full_schedule\<close> lets two workers that share one permit return, the second one having
  printed its first line between two lines of the first.
\<close>

definition two_workers :: system where
  "two_workers = start 1 [''dragon'', ''zebra'']"

definition blocking_schedule :: "nat list" where
  "blocking_schedule =
     concat (map (replicate 4) [0, 1, 2, 3, 4, 5]) @ concat (map (replicate 4) [0, 1, 2, 3, 4]) @ [5, 5]"

definition full_schedule :: "nat list" where
  "full_schedule = [0, 0, 0, 0, 1, 1, 1, 1] @ replicate 25 0 @ replicate 25 1"

section \<open>The filter: lemmas\<close>

lemma c_str_Nil [simp]: "c_str [] = []" by (simp add: c_str_def)

lemma c_str_Cons: "c_str (c # s) = (if c = CHR 0x00 then [] else c # c_str s)"
  by (simp add: c_str_def)

lemma to_lower_loop_eq:
  "to_lower_loop i n s = map tolower (take (n - 1 - i) (c_str s))"
proof (induction s arbitrary: i)
  case Nil
  show ?case by simp
next
  case (Cons c s)
  show ?case
  proof (cases "i + 1 < n \<and> c \<noteq> CHR 0x00")
    case True
    then have "n - 1 - i = Suc (n - 1 - (i + 1))" by arith
    with True Cons show ?thesis by (simp add: c_str_Cons)
  next
    case False
    then show ?thesis by (auto simp: c_str_Cons)
  qed
qed

lemma to_lower_copy_eq: "to_lower_copy n s = map tolower (take (n - 1) (c_str s))"
  by (simp add: to_lower_copy_def to_lower_loop_eq)

lemma strstr_iff: "strstr h n \<noteq> None \<longleftrightarrow> sublist n h"
  by (induction h) (auto simp: sublist_Cons_right)

lemma first_is_nul_iff: "first_is_nul k \<longleftrightarrow> c_str k = []"
  by (cases k) (auto simp: c_str_Cons)

lemma contains_keyword_ci_iff:
  "contains_keyword_ci (Some t) (Some k) \<noteq> 0 \<longleftrightarrow>
     c_str k \<noteq> [] \<and> sublist (map tolower (take 63 (c_str k))) (map tolower (take 499 (c_str t)))"
  using strstr_iff [of "to_lower_copy MAX_DESC_LEN t" "to_lower_copy MAX_KEYWORD_LEN k"]
  by (simp add: contains_keyword_ci_def first_is_nul_iff to_lower_copy_eq
      MAX_DESC_LEN_def MAX_KEYWORD_LEN_def Let_def)

lemma contains_keyword_ci_range: "contains_keyword_ci t k = 0 \<or> contains_keyword_ci t k = 1"
  by (simp add: contains_keyword_ci_def Let_def split: option.splits)

section \<open>The comparison function and the sort: lemmas\<close>

lemma float_lt_irrefl [simp]: "\<not> float_lt a a" by (cases a) simp_all

lemma float_lt_asym: "float_lt a b \<Longrightarrow> \<not> float_lt b a" by (cases a; cases b) simp_all

lemma float_ge_trans_aux:
  "b \<noteq> NaN \<Longrightarrow> \<not> float_lt a b \<Longrightarrow> \<not> float_lt b c \<Longrightarrow> \<not> float_lt a c"
  by (cases a; cases b; cases c) simp_all

lemma not_lt_float_ge: "a \<noteq> NaN \<Longrightarrow> b \<noteq> NaN \<Longrightarrow> \<not> float_lt a b \<Longrightarrow> float_ge a b"
  by (cases a; cases b) (auto simp: float_ge_def float_gt_def float_eq_def)

lemma cmp_result_desc_le: "cmp_result_desc a b \<le> 0 \<longleftrightarrow> \<not> float_lt (rating a) (rating b)"
  by (simp add: cmp_result_desc_def)

lemma valid_compar_cmp_result_desc:
  assumes "\<forall>a\<in>A. rating a \<noteq> NaN"
  shows "valid_compar cmp_result_desc A"
  unfolding valid_compar_def
proof (intro conjI ballI impI)
  fix a b assume "a \<in> A" "b \<in> A"
  show "(cmp_result_desc a b < 0) = (0 < cmp_result_desc b a)"
    using float_lt_asym [of "rating a" "rating b"]
    by (auto simp: cmp_result_desc_def float_gt_def)
  show "(cmp_result_desc a b = 0) = (cmp_result_desc b a = 0)"
    by (auto simp: cmp_result_desc_def float_gt_def)
next
  fix a b c assume "a \<in> A" "b \<in> A" "c \<in> A" and h: "cmp_result_desc a b \<le> 0 \<and> cmp_result_desc b c \<le> 0"
  from \<open>b \<in> A\<close> assms have "rating b \<noteq> NaN" by blast
  with h show "cmp_result_desc a c \<le> 0"
    using float_ge_trans_aux [of "rating b" "rating a" "rating c"]
    by (simp add: cmp_result_desc_le)
qed

lemma valid_compar_trans:
  "valid_compar cmp A \<Longrightarrow> a \<in> A \<Longrightarrow> b \<in> A \<Longrightarrow> c \<in> A \<Longrightarrow> cmp a b \<le> 0 \<Longrightarrow> cmp b c \<le> 0 \<Longrightarrow> cmp a c \<le> 0"
  unfolding valid_compar_def by blast

lemma valid_compar_total:
  assumes "valid_compar cmp A" "a \<in> A" "b \<in> A" "\<not> cmp a b \<le> 0"
  shows "cmp b a \<le> 0"
proof -
  from assms(1,2,3) have "(cmp b a < 0) = (0 < cmp a b)" unfolding valid_compar_def by blast
  with assms(4) show ?thesis by simp
qed

lemma qsort_insert_mset: "mset (qsort_insert cmp x ys) = add_mset x (mset ys)"
  by (induction ys) auto

lemma qsort_ins_mset: "mset (qsort_ins cmp xs) = mset xs"
  by (induction xs) (auto simp: qsort_ins_def qsort_insert_mset)

lemma qsort_insert_set: "set (qsort_insert cmp x ys) = insert x (set ys)"
  by (induction ys) auto

lemma qsort_ins_set: "set (qsort_ins cmp xs) = set xs"
  by (induction xs) (auto simp: qsort_ins_def qsort_insert_set)

lemma qsort_insert_sorted:
  assumes vc: "valid_compar cmp A" and xA: "x \<in> A"
  shows "set ys \<subseteq> A \<Longrightarrow> sorted_wrt (\<lambda>a b. cmp a b \<le> 0) ys \<Longrightarrow>
         sorted_wrt (\<lambda>a b. cmp a b \<le> 0) (qsort_insert cmp x ys)"
proof (induction ys)
  case Nil
  show ?case by simp
next
  case (Cons y ys)
  from Cons.prems have yA: "y \<in> A" and ysA: "set ys \<subseteq> A"
    and yle: "\<forall>z\<in>set ys. cmp y z \<le> 0" and srt: "sorted_wrt (\<lambda>a b. cmp a b \<le> 0) ys"
    by simp_all
  show ?case
  proof (cases "cmp x y \<le> 0")
    case True
    have "\<forall>z\<in>set ys. cmp x z \<le> 0"
    proof
      fix z assume z: "z \<in> set ys"
      with yle ysA have "cmp y z \<le> 0" "z \<in> A" by auto
      with True show "cmp x z \<le> 0" using valid_compar_trans [OF vc xA yA] by blast
    qed
    with True yle srt show ?thesis by simp
  next
    case False
    then have yx: "cmp y x \<le> 0" using valid_compar_total [OF vc xA yA] by simp
    have "sorted_wrt (\<lambda>a b. cmp a b \<le> 0) (qsort_insert cmp x ys)"
      using Cons.IH ysA srt by simp
    with False yx yle show ?thesis by (simp add: qsort_insert_set)
  qed
qed

lemma qsort_ins_sorted:
  assumes vc: "valid_compar cmp A"
  shows "set xs \<subseteq> A \<Longrightarrow> sorted_wrt (\<lambda>a b. cmp a b \<le> 0) (qsort_ins cmp xs)"
proof (induction xs)
  case Nil
  show ?case by (simp add: qsort_ins_def)
next
  case (Cons x xs)
  then have s: "sorted_wrt (\<lambda>a b. cmp a b \<le> 0) (qsort_ins cmp xs)" by simp
  have sub: "set (qsort_ins cmp xs) \<subseteq> A" using Cons.prems by (simp add: qsort_ins_set)
  have xA: "x \<in> A" using Cons.prems by simp
  have "sorted_wrt (\<lambda>a b. cmp a b \<le> 0) (qsort_insert cmp x (qsort_ins cmp xs))"
    by (rule qsort_insert_sorted [OF vc xA sub s])
  then show ?case by (simp add: qsort_ins_def)
qed

lemma qsort_ins_contract: "qsort_contract qsort_ins"
  unfolding qsort_contract_def
proof (intro allI impI conjI)
  fix cmp xs assume "valid_compar cmp (set xs)"
  then show "sorted_wrt (\<lambda>a b. cmp a b \<le> 0) (qsort_ins cmp xs)"
    by (rule qsort_ins_sorted) simp
  show "mset (qsort_ins cmp xs) = mset xs" by (rule qsort_ins_mset)
qed

lemma qsort_contract_Nil:
  assumes "qsort_contract srt"
  shows "srt cmp [] = []"
proof -
  have "valid_compar cmp (set [])" by (simp add: valid_compar_def)
  with assms have "mset (srt cmp []) = mset []" unfolding qsort_contract_def by blast
  then show ?thesis by simp
qed

section \<open>The scan loop: lemmas\<close>

lemma matching_from_Nil [simp]: "matching_from i [] kw = []"
  by (simp add: matching_from_def)

lemma matching_from_Cons:
  "matching_from i (m # ms) kw =
     (if contains_keyword_ci (Some (description m)) (Some kw) \<noteq> 0
      then \<lparr>idx = i, rating = popularity_rating m\<rparr> # matching_from (Suc i) ms kw
      else matching_from (Suc i) ms kw)"
  by (simp add: matching_from_def)

lemma scan_movies_eq:
  "scan_movies ms kw i res = res @ take (MAX_RESULTS - length res) (matching_from i ms kw)"
proof (induction ms arbitrary: i res)
  case Nil
  show ?case by simp
next
  case (Cons m ms)
  show ?case
  proof (cases "contains_keyword_ci (Some (description m)) (Some kw) \<noteq> 0")
    case False
    then show ?thesis by (simp add: Cons matching_from_Cons)
  next
    case True
    show ?thesis
    proof (cases "length res < MAX_RESULTS")
      case True
      then have "MAX_RESULTS - length res = Suc (MAX_RESULTS - Suc (length res))" by arith
      with True \<open>contains_keyword_ci (Some (description m)) (Some kw) \<noteq> 0\<close>
      show ?thesis by (simp add: Cons matching_from_Cons)
    next
      case False
      with \<open>contains_keyword_ci (Some (description m)) (Some kw) \<noteq> 0\<close>
      show ?thesis by (simp add: Cons matching_from_Cons)
    qed
  qed
qed

lemma scan_movies_0: "scan_movies ms kw 0 [] = take MAX_RESULTS (matching_from 0 ms kw)"
  by (simp add: scan_movies_eq)

lemma matching_from_idx:
  "map idx (matching_from i ms kw) =
     filter (\<lambda>j. contains_keyword_ci (Some (description (ms ! (j - i)))) (Some kw) \<noteq> 0) [i..<i + length ms]"
proof (induction ms arbitrary: i)
  case Nil show ?case by simp
next
  case (Cons m ms)
  have *: "filter (\<lambda>j. contains_keyword_ci (Some (description ((m # ms) ! (j - i)))) (Some kw) \<noteq> 0) [Suc i..<Suc i + length ms]
        = filter (\<lambda>j. contains_keyword_ci (Some (description (ms ! (j - Suc i)))) (Some kw) \<noteq> 0) [Suc i..<Suc i + length ms]"
    by (rule filter_cong) (auto simp: nth_Cons' Suc_diff_le)
  have "[i..<i + length (m # ms)] = i # [Suc i..<Suc i + length ms]"
    by (simp add: upt_rec)
  then show ?case using * by (simp add: matching_from_Cons Cons)
qed

lemma matching_from_entry:
  "r \<in> set (matching_from i ms kw) \<Longrightarrow>
     i \<le> idx r \<and> idx r < i + length ms \<and> rating r = popularity_rating (ms ! (idx r - i)) \<and>
     contains_keyword_ci (Some (description (ms ! (idx r - i)))) (Some kw) \<noteq> 0"
  by (auto simp: matching_from_def in_set_enumerate_eq)

lemma distinct_matching_idx: "distinct (map idx (matching_from i ms kw))"
  by (simp add: matching_from_idx)

lemma length_matching_from:
  "length (matching_from i ms kw) =
     length (filter (\<lambda>m. contains_keyword_ci (Some (description m)) (Some kw) \<noteq> 0) ms)"
  by (induction ms arbitrary: i) (simp_all add: matching_from_Cons)

lemma scan_entry:
  assumes "r \<in> set (scan_movies ms kw 0 [])"
  shows "idx r < length ms \<and> rating r = popularity_rating (ms ! idx r) \<and>
         contains_keyword_ci (Some (description (ms ! idx r))) (Some kw) \<noteq> 0"
proof -
  from assms have "r \<in> set (matching_from 0 ms kw)"
    by (auto simp: scan_movies_0 dest: in_set_takeD)
  from matching_from_entry [OF this] show ?thesis by simp
qed

lemma scan_no_nan:
  assumes "\<forall>m\<in>set ms. popularity_rating m \<noteq> NaN"
  shows "\<forall>r\<in>set (scan_movies ms kw 0 []). rating r \<noteq> NaN"
proof
  fix r assume "r \<in> set (scan_movies ms kw 0 [])"
  from scan_entry [OF this] have "idx r < length ms" "rating r = popularity_rating (ms ! idx r)"
    by simp_all
  with assms show "rating r \<noteq> NaN" by simp
qed

lemma search_results_sorted_perm:
  assumes "qsort_contract srt" "\<forall>m\<in>set ms. popularity_rating m \<noteq> NaN"
  shows "mset (search_results srt ms kw) = mset (scan_movies ms kw 0 [])"
    and "sorted_wrt (\<lambda>a b. cmp_result_desc a b \<le> 0) (search_results srt ms kw)"
proof -
  have "valid_compar cmp_result_desc (set (scan_movies ms kw 0 []))"
    by (rule valid_compar_cmp_result_desc) (rule scan_no_nan [OF assms(2)])
  with assms(1) show "mset (search_results srt ms kw) = mset (scan_movies ms kw 0 [])"
    and "sorted_wrt (\<lambda>a b. cmp_result_desc a b \<le> 0) (search_results srt ms kw)"
    unfolding qsort_contract_def search_results_def by blast+
qed

lemma search_results_set:
  assumes "qsort_contract srt" "\<forall>m\<in>set ms. popularity_rating m \<noteq> NaN"
  shows "set (search_results srt ms kw) = set (scan_movies ms kw 0 [])"
  using search_results_sorted_perm(1) [OF assms] by (rule mset_eq_setD)

lemma search_results_ratings:
  assumes "qsort_contract srt" "\<forall>m\<in>set ms. popularity_rating m \<noteq> NaN"
  shows "map (\<lambda>r. popularity_rating (ms ! idx r)) (search_results srt ms kw)
       = map rating (search_results srt ms kw)"
proof (rule map_cong [OF refl])
  fix r assume "r \<in> set (search_results srt ms kw)"
  then have "r \<in> set (scan_movies ms kw 0 [])" using search_results_set [OF assms] by simp
  from scan_entry [OF this] show "popularity_rating (ms ! idx r) = rating r" by simp
qed

lemma scan_movies_cong:
  assumes "\<And>t. contains_keyword_ci (Some t) (Some k) = contains_keyword_ci (Some t) (Some k')"
  shows "scan_movies ms k i res = scan_movies ms k' i res"
  by (induction ms arbitrary: i res) (simp_all add: assms)

section \<open>The report block: lemmas\<close>

lemma printed_ratings_append [simp]:
  "printed_ratings (xs @ ys) = printed_ratings xs @ printed_ratings ys"
  by (induction xs rule: printed_ratings.induct) simp_all

lemma printed_ratings_rows:
  "printed_ratings (print_rows ms rs i) = map (\<lambda>r. popularity_rating (ms ! idx r)) rs"
  by (induction rs arbitrary: i) (simp_all add: Let_def)

lemma printed_ratings_block:
  "printed_ratings (report_block ms kw rs) = map (\<lambda>r. popularity_rating (ms ! idx r)) rs"
  by (simp add: report_block_def printed_ratings_rows)

lemma length_print_rows [simp]: "length (print_rows ms rs i) = length rs"
  by (induction rs arbitrary: i) (simp_all add: Let_def)

section \<open>The hardcoded catalog: lemmas\<close>

lemma hardcoded_no_nan: "\<forall>m\<in>set load_movies_hardcoded. popularity_rating m \<noteq> NaN"
  by (simp add: load_movies_hardcoded_def)

lemma tolower_nul: "tolower (CHR 0x00) = CHR 0x00"
  by (simp add: tolower_def)

lemma to_lower_copy_dragon:
  assumes "map tolower kw = ''dragon''"
  shows "to_lower_copy MAX_KEYWORD_LEN kw = ''dragon'' \<and> \<not> first_is_nul kw"
proof -
  have "CHR 0x00 \<notin> set (map tolower kw)" unfolding assms by simp
  then have "CHR 0x00 \<notin> set kw" using tolower_nul by force
  then have c: "c_str kw = kw" by (auto simp: c_str_def)
  have "length (map tolower kw) = 6" unfolding assms by simp
  then have l: "length kw = 6" by simp
  then have "kw \<noteq> []" by auto
  with c l assms show ?thesis
    by (simp add: to_lower_copy_eq first_is_nul_iff MAX_KEYWORD_LEN_def)
qed

lemma contains_dragon:
  assumes "map tolower kw = ''dragon''"
  shows "contains_keyword_ci (Some t) (Some kw) = contains_keyword_ci (Some t) (Some ''dragon'')"
  using to_lower_copy_dragon [OF assms] to_lower_copy_dragon [of "''dragon''"]
  by (simp add: contains_keyword_ci_def tolower_def)

lemma scan_hardcoded_dragon:
  "scan_movies load_movies_hardcoded ''dragon'' 0 [] =
     [\<lparr>idx = 0, rating = Finite (185 / 2)\<rparr>, \<lparr>idx = 1, rating = Finite 71\<rparr>]"
  by code_simp

lemma sorted_pair_unique:
  assumes "mset xs = mset [a, b]" "sorted_wrt R xs" "\<not> R b a"
  shows "xs = [a, b]"
proof -
  from assms(1) have "length xs = 2" using mset_eq_length by fastforce
  then obtain x y where xs: "xs = [x, y]"
    by (metis (no_types, opaque_lifting) One_nat_def Suc_1 length_0_conv length_Suc_conv)
  with assms(1) have "(x = a \<and> y = b) \<or> (x = b \<and> y = a)"
    by (auto simp: add_eq_conv_diff)
  with xs assms(2,3) show ?thesis by auto
qed

section \<open>The worker threads: lemmas\<close>

lemma filter_update_count:
  "i < length ts \<Longrightarrow>
     length (filter Q (ts[i := x])) + (if Q (ts ! i) then 1 else 0) =
     length (filter Q ts) + (if Q x then 1 else 0)"
proof (induction ts arbitrary: i)
  case Nil
  then show ?case by simp
next
  case (Cons t ts)
  show ?case
  proof (cases i)
    case 0
    then show ?thesis by simp
  next
    case (Suc j)
    with Cons.prems have "j < length ts" by simp
    from Cons.IH [OF this] Suc show ?thesis by simp
  qed
qed

lemma goto_fields [simp]:
  "length (threads (goto i l s)) = length (threads s)"
  "g_db_sem (goto i l s) = g_db_sem s"
  "g_print_mutex (goto i l s) = g_print_mutex s"
  "stdout (goto i l s) = stdout s"
  by (simp_all add: goto_def)

lemma goto_nth:
  "j < length (threads s) \<Longrightarrow>
     threads (goto i l s) ! j = (if i = j then (threads s ! j)\<lparr>pc := l\<rparr> else threads s ! j)"
  by (simp add: goto_def)

lemma printf_fields [simp]:
  "threads (printf c s) = threads s"
  "g_db_sem (printf c s) = g_db_sem s"
  "g_print_mutex (printf c s) = g_print_mutex s"
  "stdout (printf c s) = stdout s @ [c]"
  by (simp_all add: printf_def)

lemma unlock_fields [simp]:
  "threads (pthread_mutex_unlock s) = threads s"
  "g_db_sem (pthread_mutex_unlock s) = g_db_sem s"
  "g_print_mutex (pthread_mutex_unlock s) = None"
  "stdout (pthread_mutex_unlock s) = stdout s"
  by (simp_all add: pthread_mutex_unlock_def)

lemma sem_post_fields [simp]:
  "threads (sem_post s) = threads s"
  "g_db_sem (sem_post s) = Suc (g_db_sem s)"
  "g_print_mutex (sem_post s) = g_print_mutex s"
  "stdout (sem_post s) = stdout s"
  by (simp_all add: sem_post_def)

lemma count_at_goto_same:
  assumes "i < length (threads s)" "P l = P (pc (threads s ! i))"
  shows "count_at P (goto i l s) = count_at P s"
  using filter_update_count [OF assms(1), of "\<lambda>t. P (pc t)" "(threads s ! i)\<lparr>pc := l\<rparr>"] assms(2)
  by (simp add: count_at_def goto_def)

lemma count_at_goto_enter:
  assumes "i < length (threads s)" "\<not> P (pc (threads s ! i))" "P l"
  shows "count_at P (goto i l s) = Suc (count_at P s)"
  using filter_update_count [OF assms(1), of "\<lambda>t. P (pc t)" "(threads s ! i)\<lparr>pc := l\<rparr>"] assms(2,3)
  by (simp add: count_at_def goto_def)

lemma count_at_goto_leave:
  assumes "i < length (threads s)" "P (pc (threads s ! i))" "\<not> P l"
  shows "Suc (count_at P (goto i l s)) = count_at P s"
  using filter_update_count [OF assms(1), of "\<lambda>t. P (pc t)" "(threads s ! i)\<lparr>pc := l\<rparr>"] assms(2,3)
  by (simp add: count_at_def goto_def)

lemma count_at_threads_cong: "threads s' = threads s \<Longrightarrow> count_at P s' = count_at P s"
  by (simp add: count_at_def)

lemma step_at:
  assumes "i < length (threads s)"
  shows "pc (threads s ! i) = Lock_Waiting \<Longrightarrow> step srt ms i s = lock_then i Print_Waiting s"
    and "pc (threads s ! i) = Print_Waiting \<Longrightarrow> step srt ms i s =
           goto i Unlock_Waiting (printf (waiting_line (worker_id (threads s ! i)) (keyword (threads s ! i))) s)"
    and "pc (threads s ! i) = Unlock_Waiting \<Longrightarrow> step srt ms i s = goto i Sem_Wait (pthread_mutex_unlock s)"
    and "pc (threads s ! i) = Sem_Wait \<Longrightarrow> step srt ms i s =
           (if 0 < g_db_sem s then goto i Lock_Acquired (s\<lparr>g_db_sem := g_db_sem s - 1\<rparr>) else s)"
    and "pc (threads s ! i) = Lock_Acquired \<Longrightarrow> step srt ms i s = lock_then i Print_Acquired s"
    and "pc (threads s ! i) = Print_Acquired \<Longrightarrow> step srt ms i s =
           goto i Unlock_Acquired (printf (acquired_line (worker_id (threads s ! i))) s)"
    and "pc (threads s ! i) = Unlock_Acquired \<Longrightarrow> step srt ms i s = goto i Usleep (pthread_mutex_unlock s)"
    and "pc (threads s ! i) = Usleep \<Longrightarrow> step srt ms i s = goto i Scan_Sort s"
    and "pc (threads s ! i) = Scan_Sort \<Longrightarrow> step srt ms i s =
           goto i (Lock_Report (search_results srt ms (keyword (threads s ! i)))) s"
    and "pc (threads s ! i) = Lock_Report rs \<Longrightarrow> step srt ms i s = lock_then i (Print_Report rs 0) s"
    and "pc (threads s ! i) = Print_Report rs k \<Longrightarrow> step srt ms i s =
           goto i (if k + 1 < length (report_block ms (keyword (threads s ! i)) rs)
                   then Print_Report rs (k + 1) else Unlock_Report)
             (printf (report_block ms (keyword (threads s ! i)) rs ! k) s)"
    and "pc (threads s ! i) = Unlock_Report \<Longrightarrow> step srt ms i s = goto i Lock_Finished (pthread_mutex_unlock s)"
    and "pc (threads s ! i) = Lock_Finished \<Longrightarrow> step srt ms i s = lock_then i Print_Finished s"
    and "pc (threads s ! i) = Print_Finished \<Longrightarrow> step srt ms i s =
           goto i Unlock_Finished (printf (finished_line (worker_id (threads s ! i))) s)"
    and "pc (threads s ! i) = Unlock_Finished \<Longrightarrow> step srt ms i s = goto i Sem_Post (pthread_mutex_unlock s)"
    and "pc (threads s ! i) = Sem_Post \<Longrightarrow> step srt ms i s = goto i Done (sem_post s)"
    and "pc (threads s ! i) = Done \<Longrightarrow> step srt ms i s = s"
  using assms
  by (simp_all add: step_def search_worker_def Let_def lock_then_def pthread_mutex_lock_def sem_wait_def
      split: option.splits)

lemma count_at_lock_then:
  assumes "i < length (threads s)" "P l = P (pc (threads s ! i))"
  shows "count_at P (lock_then i l s) = count_at P s"
proof (cases "g_print_mutex s = None")
  case False
  then show ?thesis by (auto simp: lock_then_def)
next
  case True
  have "count_at P (goto i l (s\<lparr>g_print_mutex := Some i\<rparr>)) = count_at P (s\<lparr>g_print_mutex := Some i\<rparr>)"
    using assms by (intro count_at_goto_same) simp_all
  also have "\<dots> = count_at P s" by (simp add: count_at_def)
  finally show ?thesis using True by (simp add: lock_then_def)
qed

lemma lock_then_sem [simp]: "g_db_sem (lock_then i l s) = g_db_sem s"
  by (simp add: lock_then_def)

lemma count_at_goto_same':
  assumes "i < length (threads s)" "threads s' = threads s" "P l = P (pc (threads s ! i))"
  shows "count_at P (goto i l s') = count_at P s"
proof -
  have "count_at P (goto i l s') = count_at P s'"
    using assms by (intro count_at_goto_same) simp_all
  with assms(2) show ?thesis by (simp add: count_at_def)
qed

lemma step_permits:
  "g_db_sem (step srt ms i s) + count_at holds_permit (step srt ms i s)
   = g_db_sem s + count_at holds_permit s"
proof (cases "i < length (threads s)")
  case False
  then show ?thesis by (simp add: step_def)
next
  case True
  note st = step_at [OF True, where srt = srt and ms = ms]
  note same = count_at_goto_same' [OF True, of _ holds_permit]
  note lk = count_at_lock_then [OF True, of holds_permit]
  show ?thesis
  proof (cases "pc (threads s ! i)")
    case Lock_Waiting
    then show ?thesis by (simp add: st lk)
  next
    case Print_Waiting
    then show ?thesis by (simp add: st same)
  next
    case Unlock_Waiting
    then show ?thesis by (simp add: st same)
  next
    case Sem_Wait
    show ?thesis
    proof (cases "0 < g_db_sem s")
      case False
      with Sem_Wait show ?thesis by (simp add: st)
    next
      case pos: True
      have "count_at holds_permit (goto i Lock_Acquired (s\<lparr>g_db_sem := g_db_sem s - 1\<rparr>))
          = Suc (count_at holds_permit (s\<lparr>g_db_sem := g_db_sem s - 1\<rparr>))"
        using True Sem_Wait by (intro count_at_goto_enter) simp_all
      moreover have "count_at holds_permit (s\<lparr>g_db_sem := g_db_sem s - 1\<rparr>) = count_at holds_permit s"
        by (simp add: count_at_def)
      ultimately show ?thesis using pos Sem_Wait by (simp add: st)
    qed
  next
    case Lock_Acquired
    then show ?thesis by (simp add: st lk)
  next
    case Print_Acquired
    then show ?thesis by (simp add: st same)
  next
    case Unlock_Acquired
    then show ?thesis by (simp add: st same)
  next
    case Usleep
    then show ?thesis by (simp add: st same)
  next
    case Scan_Sort
    then show ?thesis by (simp add: st same)
  next
    case (Lock_Report rs)
    then show ?thesis by (simp add: st lk)
  next
    case (Print_Report rs k)
    then show ?thesis by (simp add: st same)
  next
    case Unlock_Report
    then show ?thesis by (simp add: st same)
  next
    case Lock_Finished
    then show ?thesis by (simp add: st lk)
  next
    case Print_Finished
    then show ?thesis by (simp add: st same)
  next
    case Unlock_Finished
    then show ?thesis by (simp add: st same)
  next
    case Sem_Post
    have "Suc (count_at holds_permit (goto i Done (sem_post s))) = count_at holds_permit (sem_post s)"
      using True Sem_Post by (intro count_at_goto_leave) simp_all
    moreover have "count_at holds_permit (sem_post s) = count_at holds_permit s"
      by (simp add: count_at_def)
    ultimately show ?thesis using Sem_Post by (simp add: st)
  next
    case Done
    then show ?thesis by (simp add: st)
  qed
qed

lemma run_permits:
  "g_db_sem (run srt ms sched s) + count_at holds_permit (run srt ms sched s)
   = g_db_sem s + count_at holds_permit s"
  by (induction sched arbitrary: s) (simp_all add: step_permits)

lemma count_at_mono:
  assumes "\<And>l. P l \<Longrightarrow> Q l"
  shows "count_at P s \<le> count_at Q s"
proof -
  have "length (filter (\<lambda>t. P (pc t)) ts) \<le> length (filter (\<lambda>t. Q (pc t)) ts)" for ts :: "thread list"
    by (induction ts) (auto dest: assms)
  then show ?thesis by (simp add: count_at_def)
qed

lemma searching_holds_permit: "searching_or_reporting l \<Longrightarrow> holds_permit l"
  by (cases l) simp_all

lemma start_fields [simp]:
  "g_db_sem (start K kws) = K"
  "g_print_mutex (start K kws) = None"
  "stdout (start K kws) = []"
  "length (threads (start K kws)) = length kws"
  by (simp_all add: start_def)

lemma start_nth:
  "j < length kws \<Longrightarrow> threads (start K kws) ! j = worker_args j (kws ! j)"
  by (simp add: start_def nth_enumerate_eq)

lemma start_pc: "t \<in> set (threads (start K kws)) \<Longrightarrow> pc t = Lock_Waiting"
  by (auto simp: start_def worker_args_def)

lemma count_at_start: "count_at holds_permit (start K kws) = 0"
  by (auto simp: count_at_def filter_empty_conv dest: start_pc)

lemma idents_goto [simp]: "idents (goto i l s) = idents s"
proof (cases "i < length (threads s)")
  case True
  then show ?thesis by (simp add: idents_def goto_def map_update list_update_same_conv)
next
  case False
  then show ?thesis by (simp add: idents_def goto_def list_update_beyond)
qed

lemma idents_cong: "threads s' = threads s \<Longrightarrow> idents s' = idents s"
  by (simp add: idents_def)

lemma is_chunk_idents:
  "is_chunk srt ms ts c \<longleftrightarrow>
     (\<exists>(wid, kw)\<in>set (map (\<lambda>t. (worker_id t, keyword t)) ts).
        c = [waiting_line wid kw] \<or> c = [acquired_line wid] \<or>
        c = search_movies_and_print srt ms kw \<or> c = [finished_line wid])"
  unfolding is_chunk_def by (simp add: split_beta)

lemma is_chunk_cong:
  assumes "idents s' = idents s"
  shows "is_chunk srt ms (threads s') c = is_chunk srt ms (threads s) c"
proof -
  from assms have "map (\<lambda>t. (worker_id t, keyword t)) (threads s')
      = map (\<lambda>t. (worker_id t, keyword t)) (threads s)"
    by (simp only: idents_def)
  then show ?thesis by (simp only: is_chunk_idents)
qed

lemma out_inv_quiet:
  assumes "out_inv srt ms s" "stdout s' = stdout s"
    "block_in_progress ms s' = block_in_progress ms s" "idents s' = idents s"
  shows "out_inv srt ms s'"
  using assms(1-3) unfolding out_inv_def by (simp add: is_chunk_cong [OF assms(4)])

lemma out_inv_extend:
  assumes "out_inv srt ms s" "stdout s' = stdout s @ [x]"
    "block_in_progress ms s' = block_in_progress ms s @ [x]" "idents s' = idents s"
  shows "out_inv srt ms s'"
  using assms(1-3) unfolding out_inv_def by (simp add: is_chunk_cong [OF assms(4)])

lemma out_inv_complete:
  assumes "out_inv srt ms s" "stdout s' = stdout s @ [x]"
    "is_chunk srt ms (threads s) (block_in_progress ms s @ [x])"
    "block_in_progress ms s' = []" "idents s' = idents s"
  shows "out_inv srt ms s'"
proof -
  from assms(1) obtain chunks where c: "stdout s = concat chunks @ block_in_progress ms s"
    and a: "\<forall>c\<in>set chunks. is_chunk srt ms (threads s) c"
    unfolding out_inv_def by blast
  let ?chunks = "chunks @ [block_in_progress ms s @ [x]]"
  have "stdout s' = concat ?chunks @ block_in_progress ms s'"
    using c assms(2,4) by simp
  moreover have "\<forall>c\<in>set ?chunks. is_chunk srt ms (threads s') c"
    using a assms(3) by (simp add: is_chunk_cong [OF assms(5)])
  ultimately show ?thesis unfolding out_inv_def by blast
qed

lemma lock_then_fields [simp]:
  "length (threads (lock_then i l s)) = length (threads s)"
  "stdout (lock_then i l s) = stdout s"
  "idents (lock_then i l s) = idents s"
  by (simp_all add: lock_then_def) (simp add: idents_def)

subsection \<open>The print mutex\<close>

lemma mutex_inv_goto_same:
  assumes "mutex_inv s" "i < length (threads s)" "threads s' = threads s"
    "g_print_mutex s' = g_print_mutex s" "holds_mutex l = holds_mutex (pc (threads s ! i))"
  shows "mutex_inv (goto i l s')"
  using assms unfolding mutex_inv_def by (simp add: goto_nth)

lemma mutex_inv_lock_then:
  assumes "mutex_inv s" "i < length (threads s)" "holds_mutex l"
  shows "mutex_inv (lock_then i l s)"
proof (cases "g_print_mutex s = None")
  case False
  with assms(1) show ?thesis by (auto simp: lock_then_def)
next
  case True
  with assms(1) have no: "\<forall>j<length (threads s). \<not> holds_mutex (pc (threads s ! j))"
    unfolding mutex_inv_def by simp
  have "mutex_inv (goto i l (s\<lparr>g_print_mutex := Some i\<rparr>))"
    unfolding mutex_inv_def using no assms(2,3) by (simp add: goto_nth)
  with True show ?thesis by (simp add: lock_then_def)
qed

lemma mutex_inv_unlock:
  assumes "mutex_inv s" "i < length (threads s)" "holds_mutex (pc (threads s ! i))" "\<not> holds_mutex l"
  shows "mutex_inv (goto i l (pthread_mutex_unlock s))"
proof -
  from assms(1-3) have "g_print_mutex s = Some i" unfolding mutex_inv_def by simp
  with assms(1) have "\<forall>j<length (threads s). j \<noteq> i \<longrightarrow> \<not> holds_mutex (pc (threads s ! j))"
    unfolding mutex_inv_def by simp
  with assms(2,4) show ?thesis unfolding mutex_inv_def by (simp add: goto_nth)
qed

lemma step_mutex_inv:
  assumes "mutex_inv s"
  shows "mutex_inv (step srt ms i s)"
proof (cases "i < length (threads s)")
  case False
  with assms show ?thesis by (simp add: step_def)
next
  case True
  note st = step_at [OF True, where srt = srt and ms = ms]
  note same = mutex_inv_goto_same [OF assms True]
  note lk = mutex_inv_lock_then [OF assms True]
  note ul = mutex_inv_unlock [OF assms True]
  show ?thesis
  proof (cases "pc (threads s ! i)")
    case Lock_Waiting
    show ?thesis unfolding st(1) [OF Lock_Waiting] by (rule lk) simp
  next
    case Print_Waiting
    show ?thesis unfolding st(2) [OF Print_Waiting] by (rule same) (simp_all add: Print_Waiting)
  next
    case Unlock_Waiting
    show ?thesis unfolding st(3) [OF Unlock_Waiting] by (rule ul) (simp_all add: Unlock_Waiting)
  next
    case Sem_Wait
    show ?thesis
    proof (cases "0 < g_db_sem s")
      case False
      with assms show ?thesis unfolding st(4) [OF Sem_Wait] by simp
    next
      case pos: True
      have "mutex_inv (goto i Lock_Acquired (s\<lparr>g_db_sem := g_db_sem s - 1\<rparr>))"
        by (rule same) (simp_all add: Sem_Wait)
      with pos show ?thesis unfolding st(4) [OF Sem_Wait] by simp
    qed
  next
    case Lock_Acquired
    show ?thesis unfolding st(5) [OF Lock_Acquired] by (rule lk) simp
  next
    case Print_Acquired
    show ?thesis unfolding st(6) [OF Print_Acquired] by (rule same) (simp_all add: Print_Acquired)
  next
    case Unlock_Acquired
    show ?thesis unfolding st(7) [OF Unlock_Acquired] by (rule ul) (simp_all add: Unlock_Acquired)
  next
    case Usleep
    show ?thesis unfolding st(8) [OF Usleep] by (rule same) (simp_all add: Usleep)
  next
    case Scan_Sort
    show ?thesis unfolding st(9) [OF Scan_Sort] by (rule same) (simp_all add: Scan_Sort)
  next
    case (Lock_Report rs)
    show ?thesis unfolding st(10) [OF Lock_Report] by (rule lk) simp
  next
    case (Print_Report rs k)
    show ?thesis unfolding st(11) [OF Print_Report]
      by (rule same) (simp_all add: Print_Report)
  next
    case Unlock_Report
    show ?thesis unfolding st(12) [OF Unlock_Report] by (rule ul) (simp_all add: Unlock_Report)
  next
    case Lock_Finished
    show ?thesis unfolding st(13) [OF Lock_Finished] by (rule lk) simp
  next
    case Print_Finished
    show ?thesis unfolding st(14) [OF Print_Finished] by (rule same) (simp_all add: Print_Finished)
  next
    case Unlock_Finished
    show ?thesis unfolding st(15) [OF Unlock_Finished] by (rule ul) (simp_all add: Unlock_Finished)
  next
    case Sem_Post
    show ?thesis unfolding st(16) [OF Sem_Post] by (rule same) (simp_all add: Sem_Post)
  next
    case Done
    show ?thesis unfolding st(17) [OF Done] by (rule assms)
  qed
qed

subsection \<open>The local array of results\<close>

lemma goto_keyword:
  "j < length (threads s) \<Longrightarrow> keyword (threads (goto i l s) ! j) = keyword (threads s ! j)"
  by (simp add: goto_nth)

lemma results_inv_goto:
  assumes "results_inv srt ms s" "i < length (threads s)" "threads s' = threads s"
    "loc_ok srt ms (keyword (threads s ! i)) l"
  shows "results_inv srt ms (goto i l s')"
  using assms unfolding results_inv_def by (simp add: goto_nth)

lemma results_inv_lock_then:
  assumes "results_inv srt ms s" "i < length (threads s)"
    "loc_ok srt ms (keyword (threads s ! i)) l"
  shows "results_inv srt ms (lock_then i l s)"
proof (cases "g_print_mutex s = None")
  case False
  with assms(1) show ?thesis by (auto simp: lock_then_def)
next
  case True
  have "results_inv srt ms (goto i l (s\<lparr>g_print_mutex := Some i\<rparr>))"
    using assms by (intro results_inv_goto [where s = s]) simp_all
  with True show ?thesis by (simp add: lock_then_def)
qed

lemma results_inv_at:
  "results_inv srt ms s \<Longrightarrow> i < length (threads s) \<Longrightarrow>
     loc_ok srt ms (keyword (threads s ! i)) (pc (threads s ! i))"
  unfolding results_inv_def by simp

lemma length_report_block: "0 < length (report_block ms kw rs)"
  by (simp add: report_block_def)

lemma step_results_inv:
  assumes "results_inv srt ms s"
  shows "results_inv srt ms (step srt ms i s)"
proof (cases "i < length (threads s)")
  case False
  with assms show ?thesis by (simp add: step_def)
next
  case True
  note st = step_at [OF True, where srt = srt and ms = ms]
  note go = results_inv_goto [OF assms True]
  note lk = results_inv_lock_then [OF assms True]
  note at = results_inv_at [OF assms True]
  show ?thesis
  proof (cases "pc (threads s ! i)")
    case Lock_Waiting
    show ?thesis unfolding st(1) [OF Lock_Waiting] by (rule lk) simp
  next
    case Print_Waiting
    show ?thesis unfolding st(2) [OF Print_Waiting] by (rule go) simp_all
  next
    case Unlock_Waiting
    show ?thesis unfolding st(3) [OF Unlock_Waiting] by (rule go) simp_all
  next
    case Sem_Wait
    show ?thesis
    proof (cases "0 < g_db_sem s")
      case False
      with assms show ?thesis unfolding st(4) [OF Sem_Wait] by simp
    next
      case pos: True
      have "results_inv srt ms (goto i Lock_Acquired (s\<lparr>g_db_sem := g_db_sem s - 1\<rparr>))"
        by (rule go) simp_all
      with pos show ?thesis unfolding st(4) [OF Sem_Wait] by simp
    qed
  next
    case Lock_Acquired
    show ?thesis unfolding st(5) [OF Lock_Acquired] by (rule lk) simp
  next
    case Print_Acquired
    show ?thesis unfolding st(6) [OF Print_Acquired] by (rule go) simp_all
  next
    case Unlock_Acquired
    show ?thesis unfolding st(7) [OF Unlock_Acquired] by (rule go) simp_all
  next
    case Usleep
    show ?thesis unfolding st(8) [OF Usleep] by (rule go) simp_all
  next
    case Scan_Sort
    show ?thesis unfolding st(9) [OF Scan_Sort] by (rule go) simp_all
  next
    case (Lock_Report rs)
    with at have "rs = search_results srt ms (keyword (threads s ! i))" by simp
    then have "loc_ok srt ms (keyword (threads s ! i)) (Print_Report rs 0)"
      using length_report_block [of ms "keyword (threads s ! i)" rs] by simp
    then show ?thesis unfolding st(10) [OF Lock_Report] by (rule lk)
  next
    case (Print_Report rs k)
    with at have rs: "rs = search_results srt ms (keyword (threads s ! i))" by simp
    show ?thesis unfolding st(11) [OF Print_Report]
      by (rule go) (simp_all add: rs)
  next
    case Unlock_Report
    show ?thesis unfolding st(12) [OF Unlock_Report] by (rule go) simp_all
  next
    case Lock_Finished
    show ?thesis unfolding st(13) [OF Lock_Finished] by (rule lk) simp
  next
    case Print_Finished
    show ?thesis unfolding st(14) [OF Print_Finished] by (rule go) simp_all
  next
    case Unlock_Finished
    show ?thesis unfolding st(15) [OF Unlock_Finished] by (rule go) simp_all
  next
    case Sem_Post
    show ?thesis unfolding st(16) [OF Sem_Post] by (rule go) simp_all
  next
    case Done
    show ?thesis unfolding st(17) [OF Done] by (rule assms)
  qed
qed

lemma mutex_inv_holder:
  "mutex_inv s \<Longrightarrow> i < length (threads s) \<Longrightarrow> holds_mutex (pc (threads s ! i)) \<Longrightarrow>
     g_print_mutex s = Some i"
  unfolding mutex_inv_def by simp

lemma mutex_inv_not_holder:
  "mutex_inv s \<Longrightarrow> i < length (threads s) \<Longrightarrow> \<not> holds_mutex (pc (threads s ! i)) \<Longrightarrow>
     g_print_mutex s \<noteq> Some i"
  unfolding mutex_inv_def by simp

lemma mutex_inv_bound:
  "mutex_inv s \<Longrightarrow> g_print_mutex s = Some j \<Longrightarrow> j < length (threads s)"
  unfolding mutex_inv_def by simp

lemma idents_ops [simp]:
  "idents (printf x s) = idents s"
  "idents (pthread_mutex_unlock s) = idents s"
  "idents (sem_post s) = idents s"
  by (simp_all add: idents_def)

lemma idents_goto_cong: "threads s' = threads s \<Longrightarrow> idents (goto i l s') = idents s"
  using idents_goto [of i l s'] idents_cong [of s' s] by simp

lemma bip_free: "g_print_mutex s = None \<Longrightarrow> block_in_progress ms s = []"
  by (simp add: block_in_progress_def)

lemma bip_holder:
  "g_print_mutex s = Some i \<Longrightarrow>
     block_in_progress ms s = written ms (keyword (threads s ! i)) (pc (threads s ! i))"
  by (simp add: block_in_progress_def)

lemma bip_goto_holder:
  assumes "g_print_mutex s' = Some i" "threads s' = threads s" "i < length (threads s)"
  shows "block_in_progress ms (goto i l s') = written ms (keyword (threads s ! i)) l"
  using assms by (simp add: block_in_progress_def goto_nth)

lemma bip_goto_other:
  assumes "mutex_inv s" "i < length (threads s)" "\<not> holds_mutex (pc (threads s ! i))"
    "threads s' = threads s" "g_print_mutex s' = g_print_mutex s"
  shows "block_in_progress ms (goto i l s') = block_in_progress ms s"
proof (cases "g_print_mutex s")
  case None
  with assms(5) show ?thesis by (simp add: block_in_progress_def)
next
  case (Some j)
  have j: "j < length (threads s)" by (rule mutex_inv_bound [OF assms(1) Some])
  from Some mutex_inv_not_holder [OF assms(1-3)] have "i \<noteq> j" by auto
  with Some j assms(4,5) show ?thesis by (simp add: block_in_progress_def goto_nth)
qed

lemma out_inv_lock_then:
  assumes "out_inv srt ms s" "i < length (threads s)"
    "written ms (keyword (threads s ! i)) l = []"
  shows "out_inv srt ms (lock_then i l s)"
proof (cases "g_print_mutex s = None")
  case False
  with assms(1) show ?thesis by (auto simp: lock_then_def)
next
  case True
  have "block_in_progress ms (goto i l (s\<lparr>g_print_mutex := Some i\<rparr>)) = []"
    using assms(2,3) by (simp add: bip_goto_holder)
  with True have "block_in_progress ms (lock_then i l s) = block_in_progress ms s"
    by (simp add: lock_then_def bip_free)
  then show ?thesis by (intro out_inv_quiet [OF assms(1)]) simp_all
qed

lemma out_inv_goto_quiet:
  assumes "out_inv srt ms s" "mutex_inv s" "i < length (threads s)"
    "\<not> holds_mutex (pc (threads s ! i))"
    "threads s' = threads s" "g_print_mutex s' = g_print_mutex s" "stdout s' = stdout s"
  shows "out_inv srt ms (goto i l s')"
proof (rule out_inv_quiet [OF assms(1)])
  show "stdout (goto i l s') = stdout s" using assms(7) by simp
  show "block_in_progress ms (goto i l s') = block_in_progress ms s"
    by (rule bip_goto_other [OF assms(2-6)])
  show "idents (goto i l s') = idents s" by (rule idents_goto_cong [OF assms(5)])
qed

lemma out_inv_unlock:
  assumes "out_inv srt ms s" "mutex_inv s" "i < length (threads s)"
    "holds_mutex (pc (threads s ! i))" "written ms (keyword (threads s ! i)) (pc (threads s ! i)) = []"
  shows "out_inv srt ms (goto i l (pthread_mutex_unlock s))"
proof (rule out_inv_quiet [OF assms(1)])
  show "stdout (goto i l (pthread_mutex_unlock s)) = stdout s" by simp
  have "block_in_progress ms s = []"
    using bip_holder [OF mutex_inv_holder [OF assms(2-4)], of ms] assms(5) by simp
  then show "block_in_progress ms (goto i l (pthread_mutex_unlock s)) = block_in_progress ms s"
    by (simp add: bip_free)
  show "idents (goto i l (pthread_mutex_unlock s)) = idents s" by simp
qed

lemma out_inv_print_line:
  assumes "out_inv srt ms s" "mutex_inv s" "i < length (threads s)"
    "holds_mutex (pc (threads s ! i))" "written ms (keyword (threads s ! i)) (pc (threads s ! i)) = []"
    "written ms (keyword (threads s ! i)) l = []" "is_chunk srt ms (threads s) [x]"
  shows "out_inv srt ms (goto i l (printf x s))"
proof (rule out_inv_complete [OF assms(1)])
  have m: "g_print_mutex s = Some i" by (rule mutex_inv_holder [OF assms(2-4)])
  show "stdout (goto i l (printf x s)) = stdout s @ [x]" by simp
  have "block_in_progress ms s = []" using bip_holder [OF m, of ms] assms(5) by simp
  with assms(7) show "is_chunk srt ms (threads s) (block_in_progress ms s @ [x])" by simp
  show "block_in_progress ms (goto i l (printf x s)) = []"
    using assms(3,6) m by (simp add: bip_goto_holder)
  show "idents (goto i l (printf x s)) = idents s" by simp
qed

lemma is_chunk_lines:
  assumes "i < length ts"
  shows "is_chunk srt ms ts [waiting_line (worker_id (ts ! i)) (keyword (ts ! i))]"
    and "is_chunk srt ms ts [acquired_line (worker_id (ts ! i))]"
    and "is_chunk srt ms ts [finished_line (worker_id (ts ! i))]"
    and "is_chunk srt ms ts (search_movies_and_print srt ms (keyword (ts ! i)))"
  unfolding is_chunk_def using nth_mem [OF assms] by blast+

lemma out_inv_print_report:
  assumes "out_inv srt ms s" "mutex_inv s" "results_inv srt ms s" "i < length (threads s)"
    "pc (threads s ! i) = Print_Report rs k"
  shows "out_inv srt ms
           (goto i (if k + 1 < length (report_block ms (keyword (threads s ! i)) rs)
                    then Print_Report rs (k + 1) else Unlock_Report)
              (printf (report_block ms (keyword (threads s ! i)) rs ! k) s))"
proof -
  let ?kw = "keyword (threads s ! i)"
  let ?block = "report_block ms ?kw rs"
  from results_inv_at [OF assms(3,4)] assms(5)
  have rs: "rs = search_results srt ms ?kw" and k: "k < length ?block" by auto
  have m: "g_print_mutex s = Some i"
    by (rule mutex_inv_holder [OF assms(2,4)]) (simp add: assms(5))
  have b: "block_in_progress ms s = take k ?block"
    using bip_holder [OF m, of ms] assms(5) by simp
  have tk: "take k ?block @ [?block ! k] = take (k + 1) ?block"
    using k by (simp add: take_Suc_conv_app_nth)
  show ?thesis
  proof (cases "k + 1 < length ?block")
    case True
    have "out_inv srt ms (goto i (Print_Report rs (k + 1)) (printf (?block ! k) s))"
    proof (rule out_inv_extend [OF assms(1)])
      show "stdout (goto i (Print_Report rs (k + 1)) (printf (?block ! k) s)) = stdout s @ [?block ! k]"
        by simp
      show "block_in_progress ms (goto i (Print_Report rs (k + 1)) (printf (?block ! k) s))
          = block_in_progress ms s @ [?block ! k]"
        using assms(4) m b tk by (simp add: bip_goto_holder)
      show "idents (goto i (Print_Report rs (k + 1)) (printf (?block ! k) s)) = idents s"
        by simp
    qed
    with True show ?thesis by simp
  next
    case False
    with k have "take (k + 1) ?block = ?block" by simp
    with tk b have whole: "block_in_progress ms s @ [?block ! k] = search_movies_and_print srt ms ?kw"
      by (simp add: search_movies_and_print_def rs)
    have "out_inv srt ms (goto i Unlock_Report (printf (?block ! k) s))"
    proof (rule out_inv_complete [OF assms(1)])
      show "stdout (goto i Unlock_Report (printf (?block ! k) s)) = stdout s @ [?block ! k]"
        by simp
      show "is_chunk srt ms (threads s) (block_in_progress ms s @ [?block ! k])"
        unfolding whole by (rule is_chunk_lines(4) [OF assms(4)])
      show "block_in_progress ms (goto i Unlock_Report (printf (?block ! k) s)) = []"
        using assms(4) m by (simp add: bip_goto_holder)
      show "idents (goto i Unlock_Report (printf (?block ! k) s)) = idents s"
        by simp
    qed
    with False show ?thesis by simp
  qed
qed

lemma step_out_inv:
  assumes o: "out_inv srt ms s" and m: "mutex_inv s" and r: "results_inv srt ms s"
  shows "out_inv srt ms (step srt ms i s)"
proof (cases "i < length (threads s)")
  case False
  with o show ?thesis by (simp add: step_def)
next
  case True
  note st = step_at [OF True, where srt = srt and ms = ms]
  note lk = out_inv_lock_then [OF o True]
  note quiet = out_inv_goto_quiet [OF o m True]
  note ul = out_inv_unlock [OF o m True]
  note line = out_inv_print_line [OF o m True]
  note chunk = is_chunk_lines [OF True, of srt ms]
  show ?thesis
  proof (cases "pc (threads s ! i)")
    case Lock_Waiting
    show ?thesis unfolding st(1) [OF Lock_Waiting] by (rule lk) simp
  next
    case Print_Waiting
    show ?thesis unfolding st(2) [OF Print_Waiting]
      by (rule line) (simp_all add: Print_Waiting chunk)
  next
    case Unlock_Waiting
    show ?thesis unfolding st(3) [OF Unlock_Waiting] by (rule ul) (simp_all add: Unlock_Waiting)
  next
    case Sem_Wait
    show ?thesis
    proof (cases "0 < g_db_sem s")
      case False
      with o show ?thesis unfolding st(4) [OF Sem_Wait] by simp
    next
      case pos: True
      have "out_inv srt ms (goto i Lock_Acquired (s\<lparr>g_db_sem := g_db_sem s - 1\<rparr>))"
        by (rule quiet) (simp_all add: Sem_Wait)
      with pos show ?thesis unfolding st(4) [OF Sem_Wait] by simp
    qed
  next
    case Lock_Acquired
    show ?thesis unfolding st(5) [OF Lock_Acquired] by (rule lk) simp
  next
    case Print_Acquired
    show ?thesis unfolding st(6) [OF Print_Acquired]
      by (rule line) (simp_all add: Print_Acquired chunk)
  next
    case Unlock_Acquired
    show ?thesis unfolding st(7) [OF Unlock_Acquired] by (rule ul) (simp_all add: Unlock_Acquired)
  next
    case Usleep
    show ?thesis unfolding st(8) [OF Usleep] by (rule quiet) (simp_all add: Usleep)
  next
    case Scan_Sort
    show ?thesis unfolding st(9) [OF Scan_Sort] by (rule quiet) (simp_all add: Scan_Sort)
  next
    case (Lock_Report rs)
    show ?thesis unfolding st(10) [OF Lock_Report] by (rule lk) simp
  next
    case (Print_Report rs k)
    show ?thesis unfolding st(11) [OF Print_Report]
      by (rule out_inv_print_report [OF o m r True Print_Report])
  next
    case Unlock_Report
    show ?thesis unfolding st(12) [OF Unlock_Report] by (rule ul) (simp_all add: Unlock_Report)
  next
    case Lock_Finished
    show ?thesis unfolding st(13) [OF Lock_Finished] by (rule lk) simp
  next
    case Print_Finished
    show ?thesis unfolding st(14) [OF Print_Finished]
      by (rule line) (simp_all add: Print_Finished chunk)
  next
    case Unlock_Finished
    show ?thesis unfolding st(15) [OF Unlock_Finished] by (rule ul) (simp_all add: Unlock_Finished)
  next
    case Sem_Post
    show ?thesis unfolding st(16) [OF Sem_Post] by (rule quiet) (simp_all add: Sem_Post)
  next
    case Done
    show ?thesis unfolding st(17) [OF Done] by (rule o)
  qed
qed

lemma run_invs:
  assumes "mutex_inv s" "results_inv srt ms s" "out_inv srt ms s"
  shows "mutex_inv (run srt ms sched s) \<and> results_inv srt ms (run srt ms sched s) \<and>
         out_inv srt ms (run srt ms sched s)"
  using assms
proof (induction sched arbitrary: s)
  case Nil
  then show ?case by simp
next
  case (Cons i sched)
  have "mutex_inv (step srt ms i s)" by (rule step_mutex_inv [OF Cons.prems(1)])
  moreover have "results_inv srt ms (step srt ms i s)" by (rule step_results_inv [OF Cons.prems(2)])
  moreover have "out_inv srt ms (step srt ms i s)"
    by (rule step_out_inv [OF Cons.prems(3,1,2)])
  ultimately show ?case using Cons.IH by simp
qed

lemma idents_step: "idents (step srt ms i s) = idents s"
  by (simp add: step_def search_worker_def Let_def pthread_mutex_lock_def sem_wait_def idents_ops
      split: location.splits option.splits) (simp add: idents_def)

lemma idents_run: "idents (run srt ms sched s) = idents s"
  by (induction sched arbitrary: s) (simp_all add: idents_step)

lemma start_invs:
  "mutex_inv (start K kws)" "results_inv srt ms (start K kws)" "out_inv srt ms (start K kws)"
proof -
  have p: "\<And>j. j < length kws \<Longrightarrow> pc (threads (start K kws) ! j) = Lock_Waiting"
    by (rule start_pc [of _ K kws]) simp
  show "mutex_inv (start K kws)" unfolding mutex_inv_def by (simp add: p)
  show "results_inv srt ms (start K kws)" unfolding results_inv_def by (simp add: p)
  have "stdout (start K kws) = concat [] @ block_in_progress ms (start K kws) \<and>
        (\<forall>c\<in>set []. is_chunk srt ms (threads (start K kws)) c)"
    by (simp add: bip_free)
  then show "out_inv srt ms (start K kws)" unfolding out_inv_def by (rule exI)
qed

lemma blocked_state:
  "g_db_sem (run qsort_ins load_movies_hardcoded blocking_schedule main_start) = 0"
  "map pc (threads (run qsort_ins load_movies_hardcoded blocking_schedule main_start))
     = [Scan_Sort, Scan_Sort, Scan_Sort, Scan_Sort, Scan_Sort, Sem_Wait, Lock_Waiting, Lock_Waiting]"
  by code_simp+

lemma final_state:
  "map pc (threads (run qsort_ins load_movies_hardcoded full_schedule two_workers)) = [Done, Done]"
  "g_print_mutex (run qsort_ins load_movies_hardcoded full_schedule two_workers) = None"
  by code_simp+

section \<open>Properties of the search and of the worker threads\<close>

text \<open>
  C1. On the hardcoded catalog, a search for "dragon" in any mix of upper and lower case
  returns exactly two records: "How to Train Your Dragon" (position 0, rating 92.5) and
  "Dragonheart" (position 1, rating 71.0), in this order, whatever sort meets the contract
  of \<open>qsort\<close>. The filter reads descriptions only.
\<close>

theorem dragon_search_two_records:
  assumes "qsort_contract srt" and "map tolower kw = ''dragon''"
  shows "search_results srt load_movies_hardcoded kw =
           [\<lparr>idx = 0, rating = Finite (185 / 2)\<rparr>, \<lparr>idx = 1, rating = Finite 71\<rparr>] \<and>
         title (load_movies_hardcoded ! 0) = ''How to Train Your Dragon'' \<and>
         title (load_movies_hardcoded ! 1) = ''Dragonheart''"
proof -
  let ?a = "\<lparr>idx = 0, rating = Finite (185 / 2)\<rparr>" and ?b = "\<lparr>idx = 1, rating = Finite 71\<rparr>"
  have sc: "scan_movies load_movies_hardcoded kw 0 [] = [?a, ?b]"
    using scan_movies_cong [of kw "''dragon''", OF contains_dragon [OF assms(2)]]
      scan_hardcoded_dragon by simp
  have "mset (search_results srt load_movies_hardcoded kw) = mset [?a, ?b]"
    and "sorted_wrt (\<lambda>a b. cmp_result_desc a b \<le> 0) (search_results srt load_movies_hardcoded kw)"
    using search_results_sorted_perm [OF assms(1) hardcoded_no_nan, of kw] sc by simp_all
  moreover have "\<not> cmp_result_desc ?b ?a \<le> 0" by (simp add: cmp_result_desc_def)
  ultimately have "search_results srt load_movies_hardcoded kw = [?a, ?b]"
    by (rule sorted_pair_unique)
  then show ?thesis by (simp add: load_movies_hardcoded_def)
qed

theorem dragon_search_two_records_witness:
  "qsort_contract qsort_ins \<and> map tolower ''DrAgOn'' = ''dragon'' \<and>
   search_results qsort_ins load_movies_hardcoded ''DrAgOn'' =
     [\<lparr>idx = 0, rating = Finite (185 / 2)\<rparr>, \<lparr>idx = 1, rating = Finite 71\<rparr>]"
proof -
  have k: "map tolower ''DrAgOn'' = ''dragon''" by code_simp
  from dragon_search_two_records [OF qsort_ins_contract k] qsort_ins_contract k
  show ?thesis by blast
qed

text \<open>
  The search for "dragon" does not return three records: the description of "The Girl with
  the Dragon Tattoo" (position 9) does not contain the keyword, and the record is left out.
\<close>

theorem dragon_search_counterexample:
  "search_results qsort_ins load_movies_hardcoded ''dragon'' =
     [\<lparr>idx = 0, rating = Finite (185 / 2)\<rparr>, \<lparr>idx = 1, rating = Finite 71\<rparr>] \<and>
   title (load_movies_hardcoded ! 9) = ''The Girl with the Dragon Tattoo'' \<and>
   contains_keyword_ci (Some (description (load_movies_hardcoded ! 9))) (Some ''dragon'') = 0"
  by code_simp

text \<open>
  C2. For every capacity \<open>K\<close>, every list of keywords and every schedule, in every state
  of the run the free permits and the workers between the return of \<open>sem_wait\<close> and the
  call of \<open>sem_post\<close> add up to \<open>K\<close>; the workers that search or report are among
  those, so they are never more than \<open>K\<close>.
\<close>

theorem admission_bound:
  "g_db_sem (run srt g_movies schedule (start K keywords))
     + count_at holds_permit (run srt g_movies schedule (start K keywords)) = K \<and>
   count_at searching_or_reporting (run srt g_movies schedule (start K keywords)) \<le> K"
proof -
  let ?s = "run srt g_movies schedule (start K keywords)"
  have e: "g_db_sem ?s + count_at holds_permit ?s = K"
    using run_permits [of srt g_movies schedule "start K keywords"]
    by (simp add: count_at_start)
  have "count_at searching_or_reporting ?s \<le> count_at holds_permit ?s"
    by (rule count_at_mono) (rule searching_holds_permit)
  with e show ?thesis by simp
qed

theorem admission_bound_witness:
  "g_db_sem (run qsort_ins load_movies_hardcoded blocking_schedule main_start) = 0 \<and>
   map pc (threads (run qsort_ins load_movies_hardcoded blocking_schedule main_start))
     = [Scan_Sort, Scan_Sort, Scan_Sort, Scan_Sort, Scan_Sort, Sem_Wait, Lock_Waiting, Lock_Waiting] \<and>
   count_at holds_permit (run qsort_ins load_movies_hardcoded blocking_schedule main_start) = 5 \<and>
   count_at searching_or_reporting (run qsort_ins load_movies_hardcoded blocking_schedule main_start) \<le> 5"
  using admission_bound [of qsort_ins load_movies_hardcoded blocking_schedule 5 main_keywords]
    blocked_state
  by (simp add: main_start_def)

text \<open>
  C3. For every record and every keyword, the filter returns 0 or 1, and it returns 1
  exactly when the keyword is not empty and its lower-cased first 63 characters occur as a
  contiguous substring of the lower-cased first 499 characters of the description of the
  record. Only the description is read; longer texts are cut, not rejected.
\<close>

theorem keyword_filter_nonempty_substring:
  "contains_keyword_ci (Some (description m)) (Some kw) \<in> {0, 1} \<and>
   (contains_keyword_ci (Some (description m)) (Some kw) \<noteq> 0 \<longleftrightarrow>
      c_str kw \<noteq> [] \<and>
      sublist (map tolower (take (MAX_KEYWORD_LEN - 1) (c_str kw)))
              (map tolower (take (MAX_DESC_LEN - 1) (c_str (description m)))))"
  using contains_keyword_ci_iff [of "description m" kw]
    contains_keyword_ci_range [of "Some (description m)" "Some kw"]
  by (simp add: MAX_KEYWORD_LEN_def MAX_DESC_LEN_def)

theorem keyword_filter_nonempty_substring_witness:
  "contains_keyword_ci (Some (description (load_movies_hardcoded ! 0))) (Some ''DRAGON'') \<noteq> 0 \<and>
   sublist (map tolower (take (MAX_KEYWORD_LEN - 1) (c_str ''DRAGON'')))
     (map tolower (take (MAX_DESC_LEN - 1) (c_str (description (load_movies_hardcoded ! 0)))))"
proof -
  have "contains_keyword_ci (Some (description (load_movies_hardcoded ! 0))) (Some ''DRAGON'') \<noteq> 0"
    by code_simp
  with keyword_filter_nonempty_substring [of "load_movies_hardcoded ! 0" "''DRAGON''"]
  show ?thesis by blast
qed

text \<open>
  The empty keyword is a substring of every description, and the filter rejects it.
\<close>

theorem keyword_filter_counterexample:
  "contains_keyword_ci (Some (description (load_movies_hardcoded ! 0))) (Some '''') = 0 \<and>
   sublist (map tolower (c_str '''')) (map tolower (c_str (description (load_movies_hardcoded ! 0))))"
  by (simp add: contains_keyword_ci_def)

text \<open>
  C4. For every keyword, the ratings of the sorted result list, and the ratings printed
  in the report block, never increase: each is greater than or equal to all later ones.
  The catalog holds no NaN rating (the ratings are then totally ordered, which
  \<open>qsort\<close> requires of its comparison function).
\<close>

theorem ranked_results_non_increasing:
  assumes "qsort_contract srt" and "\<forall>m\<in>set g_movies. popularity_rating m \<noteq> NaN"
  shows "sorted_wrt float_ge (map rating (search_results srt g_movies kw)) \<and>
         sorted_wrt float_ge (printed_ratings (search_movies_and_print srt g_movies kw))"
proof -
  let ?rs = "search_results srt g_movies kw"
  have nn: "\<forall>r\<in>set ?rs. rating r \<noteq> NaN"
    using scan_no_nan [OF assms(2)] search_results_set [OF assms] by simp
  have "sorted_wrt (\<lambda>a b. cmp_result_desc a b \<le> 0) ?rs"
    by (rule search_results_sorted_perm(2) [OF assms])
  then have "sorted_wrt (\<lambda>a b. float_ge (rating a) (rating b)) ?rs"
  proof (rule sorted_wrt_mono_rel [rotated])
    fix a b assume "a \<in> set ?rs" "b \<in> set ?rs" "cmp_result_desc a b \<le> 0"
    with nn show "float_ge (rating a) (rating b)"
      by (simp add: cmp_result_desc_le not_lt_float_ge)
  qed
  then have s: "sorted_wrt float_ge (map rating ?rs)" by (simp add: sorted_wrt_map)
  moreover have "printed_ratings (search_movies_and_print srt g_movies kw) = map rating ?rs"
    by (simp add: search_movies_and_print_def printed_ratings_block search_results_ratings [OF assms])
  ultimately show ?thesis by simp
qed

theorem ranked_results_non_increasing_witness:
  "map rating (search_results qsort_ins load_movies_hardcoded ''magic'') = [Finite 97, Finite 96] \<and>
   sorted_wrt float_ge (map rating (search_results qsort_ins load_movies_hardcoded ''magic'')) \<and>
   sorted_wrt float_ge (printed_ratings (search_movies_and_print qsort_ins load_movies_hardcoded ''magic''))"
proof -
  have "map rating (search_results qsort_ins load_movies_hardcoded ''magic'') = [Finite 97, Finite 96]"
    by code_simp
  with ranked_results_non_increasing [OF qsort_ins_contract hardcoded_no_nan, of "''magic''"]
  show ?thesis by blast
qed

text \<open>
  C5. The empty keyword matches no record: the filter returns 0 on every description, and
  the scan of any catalog collects nothing.
\<close>

theorem empty_keyword_never_matches:
  "contains_keyword_ci (Some (description m)) (Some '''') = 0 \<and>
   scan_movies g_movies '''' 0 [] = []"
proof -
  have c: "\<And>t. contains_keyword_ci (Some t) (Some '''') = 0"
    by (simp add: contains_keyword_ci_def)
  have "matching_from i g_movies '''' = []" for i
    by (induction g_movies arbitrary: i) (simp_all add: matching_from_Cons c)
  with c show ?thesis by (simp add: scan_movies_0)
qed

theorem empty_keyword_never_matches_witness:
  "contains_keyword_ci (Some (description (load_movies_hardcoded ! 2))) (Some '''') = 0"
  using empty_keyword_never_matches [of "load_movies_hardcoded ! 2"] by blast

text \<open>
  C6. For every keyword the result array holds at most \<open>MAX_RESULTS\<close> entries: the scan
  keeps the first \<open>MAX_RESULTS\<close> matching records in catalog order and drops the others;
  the report block has its usual shape, its header showing the number of entries kept and
  its last line being the closing rule.
\<close>

theorem result_capacity:
  assumes "qsort_contract srt" and "\<forall>m\<in>set g_movies. popularity_rating m \<noteq> NaN"
  shows "length (scan_movies g_movies kw 0 []) \<le> MAX_RESULTS \<and>
         scan_movies g_movies kw 0 [] = take MAX_RESULTS (matching_from 0 g_movies kw) \<and>
         mset (search_results srt g_movies kw) = mset (take MAX_RESULTS (matching_from 0 g_movies kw)) \<and>
         length (search_results srt g_movies kw) =
           min MAX_RESULTS (length (filter (\<lambda>m. contains_keyword_ci (Some (description m)) (Some kw) \<noteq> 0) g_movies)) \<and>
         search_movies_and_print srt g_movies kw ! 1 =
           Printf ''Keyword: \"%s\" | Matches: %d\<newline>''
             [ArgStr kw, ArgInt (int (length (search_results srt g_movies kw)))] \<and>
         last (search_movies_and_print srt g_movies kw) = Printf (rule_eq @ ''\<newline>'') [] \<and>
         length (search_movies_and_print srt g_movies kw) =
           5 + max 1 (length (search_results srt g_movies kw))"
proof -
  have m: "mset (search_results srt g_movies kw) = mset (scan_movies g_movies kw 0 [])"
    by (rule search_results_sorted_perm(1) [OF assms])
  then have "length (search_results srt g_movies kw) = length (scan_movies g_movies kw 0 [])"
    by (rule mset_eq_length)
  then have l: "length (search_results srt g_movies kw) =
           min MAX_RESULTS (length (filter (\<lambda>m. contains_keyword_ci (Some (description m)) (Some kw) \<noteq> 0) g_movies))"
    by (simp add: scan_movies_0 length_matching_from min.commute)
  have b: "length (search_movies_and_print srt g_movies kw) =
           5 + max 1 (length (search_results srt g_movies kw))"
    by (cases "search_results srt g_movies kw")
      (simp_all add: search_movies_and_print_def report_block_def)
  from m l b show ?thesis
    by (simp add: scan_movies_0 search_movies_and_print_def report_block_def)
qed

theorem result_capacity_witness:
  "length (search_results qsort_ins (replicate 31 (load_movies_hardcoded ! 0)) ''dragon'') = 30 \<and>
   length (filter (\<lambda>m. contains_keyword_ci (Some (description m)) (Some ''dragon'') \<noteq> 0)
      (replicate 31 (load_movies_hardcoded ! 0))) = 31"
proof -
  have c: "contains_keyword_ci (Some (description (load_movies_hardcoded ! 0))) (Some ''dragon'') \<noteq> 0"
    by code_simp
  have n: "\<forall>m\<in>set (replicate 31 (load_movies_hardcoded ! 0)). popularity_rating m \<noteq> NaN"
    by (simp add: load_movies_hardcoded_def)
  have f: "length (filter (\<lambda>m. contains_keyword_ci (Some (description m)) (Some ''dragon'') \<noteq> 0)
      (replicate 31 (load_movies_hardcoded ! 0))) = 31"
    using c by simp
  from result_capacity [OF qsort_ins_contract n, of "''dragon''"] f
  show ?thesis by (simp add: MAX_RESULTS_def)
qed

text \<open>
  C7. A worker takes one permit in \<open>sem_wait\<close> and gives one back in \<open>sem_post\<close>, the
  only way to its return: in every state of every run in which all workers have returned,
  the semaphore holds its initial value \<open>K\<close> again.
\<close>

theorem no_permit_leak:
  assumes "\<forall>t\<in>set (threads (run srt g_movies schedule (start K keywords))). pc t = Done"
  shows "g_db_sem (run srt g_movies schedule (start K keywords)) = K"
proof -
  let ?s = "run srt g_movies schedule (start K keywords)"
  have "filter (\<lambda>t. holds_permit (pc t)) (threads ?s) = []"
    using assms by (auto simp: filter_empty_conv)
  then have "count_at holds_permit ?s = 0" by (simp add: count_at_def)
  moreover have "g_db_sem ?s + count_at holds_permit ?s = K"
    using run_permits [of srt g_movies schedule "start K keywords"]
    by (simp add: count_at_start)
  ultimately show ?thesis by simp
qed

theorem no_permit_leak_witness:
  "map pc (threads (run qsort_ins load_movies_hardcoded full_schedule two_workers)) = [Done, Done] \<and>
   g_db_sem (run qsort_ins load_movies_hardcoded full_schedule two_workers) = 1"
proof -
  let ?s = "run qsort_ins load_movies_hardcoded full_schedule two_workers"
  have "\<forall>t\<in>set (threads ?s). pc t = Done"
  proof
    fix t assume "t \<in> set (threads ?s)"
    then have "pc t \<in> set (map pc (threads ?s))" by simp
    then show "pc t = Done" unfolding final_state(1) by simp
  qed
  then have "g_db_sem ?s = 1" unfolding two_workers_def by (rule no_permit_leak)
  with final_state(1) show ?thesis by simp
qed

text \<open>
  C8. In every state of every run, standard output is a sequence of whole chunks, each a
  diagnostic line of a worker or the complete report block of a worker, followed by the
  part of the block that the holder of the print mutex has written so far (nothing when
  the mutex is free): the lines of a report block are never separated by lines of another
  worker.
\<close>

theorem report_blocks_contiguous:
  "\<exists>chunks.
     stdout (run srt g_movies schedule (start K keywords)) =
       concat chunks @ block_in_progress g_movies (run srt g_movies schedule (start K keywords)) \<and>
     (\<forall>c\<in>set chunks. is_chunk srt g_movies (threads (start K keywords)) c)"
proof -
  let ?s = "run srt g_movies schedule (start K keywords)"
  have "out_inv srt g_movies ?s"
    using run_invs [OF start_invs, of srt g_movies schedule] by blast
  moreover have "is_chunk srt g_movies (threads ?s) c = is_chunk srt g_movies (threads (start K keywords)) c" for c
    by (rule is_chunk_cong) (rule idents_run)
  ultimately show ?thesis unfolding out_inv_def by simp
qed

theorem report_blocks_contiguous_witness:
  "g_print_mutex (run qsort_ins load_movies_hardcoded full_schedule two_workers) = None \<and>
   (\<exists>chunks.
      stdout (run qsort_ins load_movies_hardcoded full_schedule two_workers) = concat chunks \<and>
      (\<forall>c\<in>set chunks. is_chunk qsort_ins load_movies_hardcoded (threads two_workers) c))"
  using report_blocks_contiguous [of qsort_ins load_movies_hardcoded full_schedule 1 "[''dragon'', ''zebra'']"]
    final_state(2)
  by (simp add: two_workers_def bip_free)

text \<open>
  C9. When no description matches the keyword, the report block is the header with
  \<open>Matches: 0\<close>, the line \<open>(No matches found)\<close> and the closing rule.
\<close>

theorem zero_matches_report:
  assumes "qsort_contract srt"
    and "\<forall>m\<in>set g_movies. contains_keyword_ci (Some (description m)) (Some kw) = 0"
  shows "search_movies_and_print srt g_movies kw =
          [Printf (''\<newline>'' @ rule_eq @ ''\<newline>'') [],
           Printf ''Keyword: \"%s\" | Matches: %d\<newline>'' [ArgStr kw, ArgInt 0],
           Printf ''Sorted by popularity rating (descending)\<newline>'' [],
           Printf (rule_dash @ ''\<newline>'') [],
           Printf ''(No matches found)\<newline>'' [],
           Printf (rule_eq @ ''\<newline>'') []]"
proof -
  have "matching_from i g_movies kw = []" for i
    using assms(2) by (induction g_movies arbitrary: i) (simp_all add: matching_from_Cons)
  then have "scan_movies g_movies kw 0 [] = []" by (simp add: scan_movies_0)
  then have "search_results srt g_movies kw = []"
    by (simp add: search_results_def qsort_contract_Nil [OF assms(1)])
  then show ?thesis by (simp add: search_movies_and_print_def report_block_def)
qed

theorem zero_matches_report_witness:
  "search_movies_and_print qsort_ins load_movies_hardcoded ''zebra'' =
          [Printf (''\<newline>'' @ rule_eq @ ''\<newline>'') [],
           Printf ''Keyword: \"%s\" | Matches: %d\<newline>'' [ArgStr ''zebra'', ArgInt 0],
           Printf ''Sorted by popularity rating (descending)\<newline>'' [],
           Printf (rule_dash @ ''\<newline>'') [],
           Printf ''(No matches found)\<newline>'' [],
           Printf (rule_eq @ ''\<newline>'') []]"
proof -
  have "\<forall>m\<in>set load_movies_hardcoded. contains_keyword_ci (Some (description m)) (Some ''zebra'') = 0"
    by code_simp
  from zero_matches_report [OF qsort_ins_contract this] show ?thesis .
qed

text \<open>
  C10. For every keyword, the entries of the result list have distinct positions; each
  position is inside the catalog, the description at that position matches the keyword
  and the rating of the entry is the rating stored at that position; when the matching
  records are at most \<open>MAX_RESULTS\<close>, the positions of the list are exactly the positions
  of the matching records.
\<close>

theorem result_entries_valid:
  assumes "qsort_contract srt" and "\<forall>m\<in>set g_movies. popularity_rating m \<noteq> NaN"
  shows "distinct (map idx (search_results srt g_movies kw)) \<and>
         (\<forall>r\<in>set (search_results srt g_movies kw).
            idx r < length g_movies \<and>
            contains_keyword_ci (Some (description (g_movies ! idx r))) (Some kw) \<noteq> 0 \<and>
            rating r = popularity_rating (g_movies ! idx r)) \<and>
         (length (filter (\<lambda>m. contains_keyword_ci (Some (description m)) (Some kw) \<noteq> 0) g_movies) \<le> MAX_RESULTS \<longrightarrow>
            set (map idx (search_results srt g_movies kw)) =
              {j. j < length g_movies \<and>
                  contains_keyword_ci (Some (description (g_movies ! j))) (Some kw) \<noteq> 0})"
proof (intro conjI ballI impI)
  let ?rs = "search_results srt g_movies kw"
  let ?sc = "scan_movies g_movies kw 0 []"
  have m: "mset ?rs = mset ?sc" by (rule search_results_sorted_perm(1) [OF assms])
  have "distinct (map idx ?sc)"
    using distinct_matching_idx [of 0 g_movies kw]
    by (simp add: scan_movies_0 take_map [symmetric] distinct_take)
  moreover have "mset (map idx ?rs) = mset (map idx ?sc)" using m by simp
  ultimately show "distinct (map idx ?rs)" by (metis mset_eq_imp_distinct_iff)
  {
    fix r assume "r \<in> set ?rs"
    then have "r \<in> set ?sc" using search_results_set [OF assms] by simp
    from scan_entry [OF this]
    show "idx r < length g_movies"
      and "contains_keyword_ci (Some (description (g_movies ! idx r))) (Some kw) \<noteq> 0"
      and "rating r = popularity_rating (g_movies ! idx r)" by simp_all
  }
  assume "length (filter (\<lambda>m. contains_keyword_ci (Some (description m)) (Some kw) \<noteq> 0) g_movies) \<le> MAX_RESULTS"
  then have "?sc = matching_from 0 g_movies kw"
    by (simp add: scan_movies_0 length_matching_from)
  then have "set (map idx ?rs) = set (map idx (matching_from 0 g_movies kw))"
    using search_results_set [OF assms, of kw] by simp
  then show "set (map idx ?rs) = {j. j < length g_movies \<and>
                  contains_keyword_ci (Some (description (g_movies ! j))) (Some kw) \<noteq> 0}"
    by (auto simp: matching_from_idx)
qed

theorem result_entries_valid_witness:
  "distinct (map idx (search_results qsort_ins load_movies_hardcoded ''magic'')) \<and>
   set (map idx (search_results qsort_ins load_movies_hardcoded ''magic'')) = {2, 6}"
proof -
  have s: "{j. j < length load_movies_hardcoded \<and>
     contains_keyword_ci (Some (description (load_movies_hardcoded ! j))) (Some ''magic'') \<noteq> 0} = {2, 6}"
    (is "?S = _")
  proof -
    have "?S = set (filter (\<lambda>j. contains_keyword_ci (Some (description (load_movies_hardcoded ! j))) (Some ''magic'') \<noteq> 0) [0..<length load_movies_hardcoded])"
      by auto
    also have "\<dots> = {2, 6}" by code_simp
    finally show ?thesis .
  qed
  have l: "length (filter (\<lambda>m. contains_keyword_ci (Some (description m)) (Some ''magic'') \<noteq> 0) load_movies_hardcoded) \<le> MAX_RESULTS"
    by code_simp
  from result_entries_valid [OF qsort_ins_contract hardcoded_no_nan, of "''magic''"] s l
  show ?thesis by simp
qed

end
